theory Spec2Isabelle
  imports Complex_Main
begin

section \<open>Data model\<close>

text \<open>
  The dispatch service of \<^verbatim>\<open>app.py\<close> keeps three module-level lists of dictionaries:
  \<^verbatim>\<open>drivers\<close>, \<^verbatim>\<open>deliveries\<close> and \<^verbatim>\<open>geofences\<close>. Each dictionary shape becomes a record.
  Python floats are read as the real numbers they denote (IEEE rounding error is not
  modelled), Python integers are \<open>int\<close>. The \<^verbatim>\<open>requested_time\<close> stamp of a delivery and
  the activity log are written and never read by the functions below; they are left out.
\<close>

type_synonym point = "real \<times> real"

type_synonym node = int

datatype exn =
    KeyError string
  | ValueError string
  | IndexError
  | LibraryError string

record driver_rec =
  drv_id :: int
  imei :: string
  driver :: string
  drv_lat :: real
  drv_lon :: real
  current_load :: int

record delivery_rec =
  dlv_id :: int
  dlv_lat :: real
  dlv_lon :: real
  address :: string
  assigned_driver :: "int option"
  eta_min :: "real option"
  route_coords :: "point list option"

record geofence_rec =
  gf_id :: int
  gf_name :: string
  polygon :: "point list"

record store =
  drivers :: "driver_rec list"
  deliveries :: "delivery_rec list"

text \<open>The seeded stores, as both source files write them.\<close>

definition init_drivers :: "driver_rec list" where
  "init_drivers =
    [\<lparr>drv_id = 1, imei = ''123456789012345'', driver = ''Alice'',
       drv_lat = 14.5547, drv_lon = 121.0244, current_load = 1\<rparr>,
     \<lparr>drv_id = 2, imei = ''234567890123456'', driver = ''Bob'',
       drv_lat = 14.5550, drv_lon = 121.0300, current_load = 2\<rparr>,
     \<lparr>drv_id = 3, imei = ''345678901234567'', driver = ''Charlie'',
       drv_lat = 14.5600, drv_lon = 121.0200, current_load = 0\<rparr>]"

definition init_store :: store where
  "init_store = \<lparr>drivers = init_drivers, deliveries = []\<rparr>"

definition geofences :: "geofence_rec list" where
  "geofences =
    [\<lparr>gf_id = 1, gf_name = ''No-Go Zone Makati'',
       polygon = [(14.555, 121.023), (14.556, 121.023), (14.556, 121.025), (14.555, 121.025)]\<rparr>]"

section \<open>External libraries and the interpreter\<close>

text \<open>
  The road graph \<^verbatim>\<open>G\<close> is downloaded at start-up and the routines that read it belong to
  osmnx and networkx; the great-circle distance belongs to the haversine package and the
  centroid iteration to scikit-learn. None of them is code of the repository, so they are
  parameters of the model, collected in one record. Each call that can raise returns a sum.

  \<^item> \<open>haversine p q\<close>: distance in kilometres between two (lat, lon) pairs.
  \<^item> \<open>nearest_nodes X Y\<close>: \<^verbatim>\<open>ox.nearest_nodes(G, X, Y)\<close>.
  \<^item> \<open>shortest_path a b\<close>: \<^verbatim>\<open>nx.shortest_path(G, a, b, weight='length')\<close>.
  \<^item> \<open>node_yx n\<close>: the pair \<^verbatim>\<open>(G.nodes[n]['y'], G.nodes[n]['x'])\<close>, \<open>None\<close> for a missing key.
  \<^item> \<open>route_edge_lengths ns\<close>: \<^verbatim>\<open>ox.utils_graph.get_route_edge_attributes(G, ns, 'length')\<close>.
  \<^item> \<open>shortest_path_length a b\<close>: \<^verbatim>\<open>nx.shortest_path_length(G, a, b, weight='length')\<close>.
  \<^item> \<open>kmeans_labels k X\<close>: the \<^verbatim>\<open>labels_\<close> of a fitted \<^verbatim>\<open>KMeans(n_clusters=k, random_state=42)\<close>.
  \<^item> \<open>float_sum ls\<close>: the built-in \<^verbatim>\<open>sum\<close> over a list of floats. Its rounding depends on
    the interpreter (one rounding per addition up to CPython 3.11, a compensated sum from
    3.12 on), so it is a parameter as well; on a single summand it is that summand.
\<close>

record env =
  haversine :: "point \<Rightarrow> point \<Rightarrow> exn + real"
  nearest_nodes :: "real \<Rightarrow> real \<Rightarrow> exn + node"
  shortest_path :: "node \<Rightarrow> node \<Rightarrow> exn + node list"
  node_yx :: "node \<Rightarrow> point option"
  route_edge_lengths :: "node list \<Rightarrow> exn + real list"
  shortest_path_length :: "node \<Rightarrow> node \<Rightarrow> exn + real"
  kmeans_labels :: "nat \<Rightarrow> point list \<Rightarrow> nat list"
  float_sum :: "real list \<Rightarrow> real"

subsection \<open>Python floats\<close>

text \<open>
  A Python float is an IEEE 754 binary64 number. It is modelled by the real number it
  denotes, and every float operation of the source rounds its exact result to the nearest
  double, ties to the even mantissa (\<open>to_double\<close>). The exponent of a value is found by
  halving or doubling it into [1, 2), at most 1023 and 1022 times: below \<open>2\<^sup>-\<^sup>1\<^sup>0\<^sup>2\<^sup>2\<close> the
  spacing of the doubles stays \<open>2\<^sup>-\<^sup>1\<^sup>0\<^sup>7\<^sup>4\<close> (subnormal numbers). Overflow to infinity and
  NaN are not modelled.
\<close>

definition round_half_even :: "real \<Rightarrow> int" where
  "round_half_even y =
    (let f = \<lfloor>y\<rfloor>; r = y - of_int f
     in if r < 1 / 2 then f
        else if 1 / 2 < r then f + 1
        else if even f then f else f + 1)"

fun exp_up :: "nat \<Rightarrow> real \<Rightarrow> int" where
  "exp_up 0 a = 0"
| "exp_up (Suc n) a = (if a < 2 then 0 else exp_up n (a / 2) + 1)"

fun exp_down :: "nat \<Rightarrow> real \<Rightarrow> int" where
  "exp_down 0 a = 0"
| "exp_down (Suc n) a = (if 1 \<le> a then 0 else exp_down n (a * 2) - 1)"

definition float_exponent :: "real \<Rightarrow> int" where
  "float_exponent x = (if 1 \<le> \<bar>x\<bar> then exp_up 1023 \<bar>x\<bar> else exp_down 1022 \<bar>x\<bar>)"

definition to_double :: "real \<Rightarrow> real" where
  "to_double x =
    (if x = 0 then 0
     else (let ulp = 2 powi (float_exponent x - 52)
           in of_int (round_half_even (x / ulp)) * ulp))"

text \<open>
  \<^verbatim>\<open>round(x, ndigits)\<close> on a float \<open>x\<close>: the exact value of \<open>x\<close> is rounded to \<open>ndigits\<close>
  decimals, a value exactly half-way going to the even neighbour, and the float nearest to
  that decimal number is returned. So \<^verbatim>\<open>round(0.35, 1)\<close> is \<^verbatim>\<open>0.3\<close>: the float \<^verbatim>\<open>0.35\<close> lies
  below 35/100.
\<close>

definition py_round :: "real \<Rightarrow> nat \<Rightarrow> real" where
  "py_round x ndigits =
    to_double (of_int (round_half_even (x * 10 ^ ndigits)) / 10 ^ ndigits)"

text \<open>
  Adding floats one after the other from the left, rounding each partial sum: what the
  built-in \<^verbatim>\<open>sum\<close> does up to CPython 3.11.
\<close>

definition sum_left :: "real list \<Rightarrow> real" where
  "sum_left ls = foldl (\<lambda>acc l. to_double (acc + l)) 0 ls"

subsection \<open>Python built-ins\<close>

text \<open>
  \<^verbatim>\<open>min(xs, key=f)\<close> keeps the first element and replaces it only by a strictly smaller
  one, so of several minimal elements it returns the earliest; on an empty list it raises
  \<^verbatim>\<open>ValueError\<close>. An exception of the key function propagates. The model returns the
  position of the chosen element, which stands for the reference Python returns.
\<close>

fun min_scan :: "('a \<Rightarrow> exn + real) \<Rightarrow> nat \<Rightarrow> real \<Rightarrow> nat \<Rightarrow> 'a list \<Rightarrow> exn + nat" where
  "min_scan key best bk i [] = Inr best"
| "min_scan key best bk i (x # xs) =
    (case key x of
       Inl e \<Rightarrow> Inl e
     | Inr k \<Rightarrow> if k < bk then min_scan key i k (Suc i) xs
               else min_scan key best bk (Suc i) xs)"

fun py_min_index :: "('a \<Rightarrow> exn + real) \<Rightarrow> 'a list \<Rightarrow> exn + nat" where
  "py_min_index key [] = Inl (ValueError ''min() arg is an empty sequence'')"
| "py_min_index key (x # xs) =
    (case key x of
       Inl e \<Rightarrow> Inl e
     | Inr k \<Rightarrow> min_scan key 0 k 1 xs)"

text \<open>Truthiness of the two values the assignment loop tests with a bare \<^verbatim>\<open>if\<close>.\<close>

fun truthy_int :: "int option \<Rightarrow> bool" where
  "truthy_int None = False"
| "truthy_int (Some k) = (k \<noteq> 0)"

fun truthy_str :: "string option \<Rightarrow> bool" where
  "truthy_str None = False"
| "truthy_str (Some s) = (s \<noteq> [])"

section \<open>Routing\<close>

text \<open>
  \<^verbatim>\<open>suggest_route(origin, destination)\<close>: both points are (lat, lon) pairs, and the
  nearest-node lookup takes the longitude first. The body of the \<^verbatim>\<open>try\<close> is \<open>route_try\<close>;
  the bare \<^verbatim>\<open>except\<close> turns every exception into the pair \<^verbatim>\<open>([], 0)\<close>.
\<close>

fun node_coords :: "env \<Rightarrow> node list \<Rightarrow> exn + point list" where
  "node_coords E [] = Inr []"
| "node_coords E (n # ns) =
    (case node_yx E n of
       None \<Rightarrow> Inl (KeyError ''node'')
     | Some p \<Rightarrow> (case node_coords E ns of Inl e \<Rightarrow> Inl e | Inr ps \<Rightarrow> Inr (p # ps)))"

definition route_try :: "env \<Rightarrow> point \<Rightarrow> point \<Rightarrow> exn + (point list \<times> real)" where
  "route_try E origin destination =
    (case nearest_nodes E (snd origin) (fst origin) of
       Inl e \<Rightarrow> Inl e
     | Inr orig_node \<Rightarrow>
    (case nearest_nodes E (snd destination) (fst destination) of
       Inl e \<Rightarrow> Inl e
     | Inr dest_node \<Rightarrow>
    (case shortest_path E orig_node dest_node of
       Inl e \<Rightarrow> Inl e
     | Inr nodes \<Rightarrow>
    (case node_coords E nodes of
       Inl e \<Rightarrow> Inl e
     | Inr coords \<Rightarrow>
    (case route_edge_lengths E nodes of
       Inl e \<Rightarrow> Inl e
     | Inr lens \<Rightarrow>
         (let distance_m = float_sum E lens;
              eta_min = to_double (distance_m / 500)
          in Inr (coords, py_round eta_min 1)))))))"

definition suggest_route :: "env \<Rightarrow> point \<Rightarrow> point \<Rightarrow> point list \<times> real" where
  "suggest_route E origin destination =
    (case route_try E origin destination of
       Inl e \<Rightarrow> ([], 0)
     | Inr r \<Rightarrow> r)"

text \<open>
  The copy of the function in \<^verbatim>\<open>tempCodeRunnerFile.py\<close> computes the distance as
  \<^verbatim>\<open>sum(nx.shortest_path_length(G, orig_node, dest_node, weight='length') for n in nodes)\<close>:
  one whole path length for every node of the path.
\<close>

fun path_length_per_node :: "env \<Rightarrow> node \<Rightarrow> node \<Rightarrow> node list \<Rightarrow> exn + real list" where
  "path_length_per_node E a b [] = Inr []"
| "path_length_per_node E a b (n # ns) =
    (case shortest_path_length E a b of
       Inl e \<Rightarrow> Inl e
     | Inr l \<Rightarrow> (case path_length_per_node E a b ns of Inl e \<Rightarrow> Inl e | Inr ls \<Rightarrow> Inr (l # ls)))"

definition route_try_temp :: "env \<Rightarrow> point \<Rightarrow> point \<Rightarrow> exn + (point list \<times> real)" where
  "route_try_temp E origin destination =
    (case nearest_nodes E (snd origin) (fst origin) of
       Inl e \<Rightarrow> Inl e
     | Inr orig_node \<Rightarrow>
    (case nearest_nodes E (snd destination) (fst destination) of
       Inl e \<Rightarrow> Inl e
     | Inr dest_node \<Rightarrow>
    (case shortest_path E orig_node dest_node of
       Inl e \<Rightarrow> Inl e
     | Inr nodes \<Rightarrow>
    (case node_coords E nodes of
       Inl e \<Rightarrow> Inl e
     | Inr coords \<Rightarrow>
    (case path_length_per_node E orig_node dest_node nodes of
       Inl e \<Rightarrow> Inl e
     | Inr lens \<Rightarrow>
         (let distance_m = float_sum E lens;
              eta_min = to_double (distance_m / 500)
          in Inr (coords, py_round eta_min 1)))))))"

definition suggest_route_temp :: "env \<Rightarrow> point \<Rightarrow> point \<Rightarrow> point list \<times> real" where
  "suggest_route_temp E origin destination =
    (case route_try_temp E origin destination of
       Inl e \<Rightarrow> ([], 0)
     | Inr r \<Rightarrow> r)"

section \<open>Geofences\<close>

text \<open>
  \<^verbatim>\<open>Polygon(vertices)\<close> closes the ring itself and refuses a ring of one or two vertices.
  \<^verbatim>\<open>poly.contains(point)\<close> is shapely's predicate: the point lies in the interior of the
  polygon, so a point of the boundary is not contained. On the reals that is: the point is
  on no edge of the closed ring, and a ray from it towards larger first coordinates crosses
  the ring an odd number of times. \<^verbatim>\<open>Point(lat, lon)\<close> and the vertex pairs both put the
  latitude first.
\<close>

definition Polygon :: "point list \<Rightarrow> exn + point list" where
  "Polygon vs =
    (if length vs = 1 \<or> length vs = 2
     then Inl (ValueError ''A linearring requires at least 4 coordinates.'')
     else Inr vs)"

definition ring_edges :: "point list \<Rightarrow> (point \<times> point) list" where
  "ring_edges vs = zip vs (rotate1 vs)"

definition on_segment :: "point \<Rightarrow> point \<Rightarrow> point \<Rightarrow> bool" where
  "on_segment a b p =
    ((fst b - fst a) * (snd p - snd a) = (snd b - snd a) * (fst p - fst a)
     \<and> min (fst a) (fst b) \<le> fst p \<and> fst p \<le> max (fst a) (fst b)
     \<and> min (snd a) (snd b) \<le> snd p \<and> snd p \<le> max (snd a) (snd b))"

definition on_boundary :: "point list \<Rightarrow> point \<Rightarrow> bool" where
  "on_boundary vs p = list_ex (\<lambda>(a, b). on_segment a b p) (ring_edges vs)"

definition ray_crosses :: "point \<Rightarrow> point \<Rightarrow> point \<Rightarrow> bool" where
  "ray_crosses a b p =
    ((snd p < snd a) \<noteq> (snd p < snd b)
     \<and> fst p < fst a + (snd p - snd a) * (fst b - fst a) / (snd b - snd a))"

definition crossings :: "point list \<Rightarrow> point \<Rightarrow> nat" where
  "crossings vs p = length (filter (\<lambda>(a, b). ray_crosses a b p) (ring_edges vs))"

definition contains :: "point list \<Rightarrow> point \<Rightarrow> bool" where
  "contains vs p = (\<not> on_boundary vs p \<and> odd (crossings vs p))"

fun check_geofence_in :: "geofence_rec list \<Rightarrow> real \<Rightarrow> real \<Rightarrow> exn + string option" where
  "check_geofence_in [] lat lon = Inr None"
| "check_geofence_in (gf # gfs) lat lon =
    (case Polygon (polygon gf) of
       Inl e \<Rightarrow> Inl e
     | Inr poly \<Rightarrow>
         if contains poly (lat, lon) then Inr (Some (gf_name gf))
         else check_geofence_in gfs lat lon)"

definition check_geofence :: "real \<Rightarrow> real \<Rightarrow> exn + string option" where
  "check_geofence lat lon = check_geofence_in geofences lat lon"

section \<open>Assignment\<close>

text \<open>
  \<^verbatim>\<open>assign_driver(delivery)\<close> picks \<^verbatim>\<open>min(drivers, key=haversine(...) + current_load)\<close>,
  writes the driver's id into the delivery and increments the driver's load in place. The
  model returns the chosen driver (after the increment, as the caller sees it), the updated
  delivery and the updated driver list. The key is a float sum: the integer load is
  converted to a float and added to the distance with one rounding.
\<close>

definition score :: "env \<Rightarrow> delivery_rec \<Rightarrow> driver_rec \<Rightarrow> exn + real" where
  "score E delivery d =
    (case haversine E (drv_lat d, drv_lon d) (dlv_lat delivery, dlv_lon delivery) of
       Inl e \<Rightarrow> Inl e
     | Inr km \<Rightarrow> Inr (to_double (km + to_double (of_int (current_load d)))))"

definition assign_driver ::
  "env \<Rightarrow> delivery_rec \<Rightarrow> driver_rec list \<Rightarrow> exn + (driver_rec \<times> delivery_rec \<times> driver_rec list)" where
  "assign_driver E delivery drs =
    (case py_min_index (score E delivery) drs of
       Inl e \<Rightarrow> Inl e
     | Inr i \<Rightarrow>
         (let best_driver = drs ! i;
              delivery' = delivery\<lparr>assigned_driver := Some (drv_id best_driver)\<rparr>;
              best_driver' = best_driver\<lparr>current_load := current_load best_driver + 1\<rparr>
          in Inr (best_driver', delivery', drs[i := best_driver'])))"

text \<open>
  The loop of \<^verbatim>\<open>assign_all\<close> over \<^verbatim>\<open>deliveries\<close>. The result holds the exception that
  ended the loop (if any), the deliveries and drivers as the loop left them, and the
  response rows \<^verbatim>\<open>(delivery_id, driver, eta_min)\<close>. An exception leaves every mutation made
  before it in place. Rendering the map and the page after the loop writes no store.
  This is the loop of \<^verbatim>\<open>app.py\<close>; the one in \<^verbatim>\<open>tempCodeRunnerFile.py\<close> differs only in
  keeping the route in the response instead of writing it into the delivery.
\<close>

fun assign_loop ::
  "env \<Rightarrow> delivery_rec list \<Rightarrow> driver_rec list \<Rightarrow>
     exn option \<times> delivery_rec list \<times> driver_rec list \<times> (int \<times> string \<times> real) list" where
  "assign_loop E [] drs = (None, [], drs, [])"
| "assign_loop E (d # ds) drs =
    (if truthy_int (assigned_driver d) then
       (case assign_loop E ds drs of (err, ds', drs', resp) \<Rightarrow> (err, d # ds', drs', resp))
     else
       (case check_geofence (dlv_lat d) (dlv_lon d) of
          Inl e \<Rightarrow> (Some e, d # ds, drs, [])
        | Inr g \<Rightarrow>
            if truthy_str g then
              (case assign_loop E ds drs of (err, ds', drs', resp) \<Rightarrow> (err, d # ds', drs', resp))
            else
              (case assign_driver E d drs of
                 Inl e \<Rightarrow> (Some e, d # ds, drs, [])
               | Inr (drv, d1, drs1) \<Rightarrow>
                   (case suggest_route E (drv_lat drv, drv_lon drv) (dlv_lat d1, dlv_lon d1) of
                      (route, eta) \<Rightarrow>
                        (let d2 = d1\<lparr>eta_min := Some eta, route_coords := Some route\<rparr>
                         in (case assign_loop E ds drs1 of
                               (err, ds', drs', resp) \<Rightarrow>
                                 (err, d2 # ds', drs', (dlv_id d2, driver drv, eta) # resp)))))))"

definition assign_all :: "env \<Rightarrow> store \<Rightarrow> (exn + (int \<times> string \<times> real) list) \<times> store" where
  "assign_all E s =
    (case assign_loop E (deliveries s) (drivers s) of
       (err, ds', drs', resp) \<Rightarrow>
         ((case err of None \<Rightarrow> Inr resp | Some e \<Rightarrow> Inl e),
          s\<lparr>drivers := drs', deliveries := ds'\<rparr>))"

section \<open>Intake and registration\<close>

text \<open>
  The JSON body of a request is one object or a list of objects
  (\<^verbatim>\<open>isinstance(data, list)\<close>). A key read with \<^verbatim>\<open>d['k']\<close> raises \<^verbatim>\<open>KeyError\<close> when it is
  absent; a key read with \<^verbatim>\<open>d.get('k', default)\<close> does not. Coordinates are numbers.
  A list body stops at the first item that raises, with the earlier items already stored.
  (\<^verbatim>\<open>tempCodeRunnerFile.py\<close> has the single-object branch of the delivery intake only, and no
  driver registration.)
\<close>

datatype 'a body = Single 'a | Batch "'a list"

record delivery_item =
  it_lat :: "real option"
  it_lon :: "real option"
  it_address :: "string option"

record driver_item =
  di_imei :: "string option"
  di_driver :: "string option"
  di_lat :: "real option"
  di_lon :: "real option"

definition new_delivery :: "delivery_rec list \<Rightarrow> delivery_item \<Rightarrow> exn + delivery_rec" where
  "new_delivery dels d =
    (case it_lat d of
       None \<Rightarrow> Inl (KeyError ''lat'')
     | Some la \<Rightarrow>
    (case it_lon d of
       None \<Rightarrow> Inl (KeyError ''lon'')
     | Some lo \<Rightarrow>
         Inr \<lparr>dlv_id = int (length dels) + 1,
              dlv_lat = la,
              dlv_lon = lo,
              address = (case it_address d of None \<Rightarrow> ''Unknown'' | Some a \<Rightarrow> a),
              assigned_driver = None,
              eta_min = None,
              route_coords = None\<rparr>))"

fun add_delivery_loop ::
  "delivery_item list \<Rightarrow> delivery_rec list \<Rightarrow> delivery_rec list \<Rightarrow>
     (exn + delivery_rec list) \<times> delivery_rec list" where
  "add_delivery_loop [] added dels = (Inr added, dels)"
| "add_delivery_loop (d # rest) added dels =
    (case new_delivery dels d of
       Inl e \<Rightarrow> (Inl e, dels)
     | Inr delivery \<Rightarrow> add_delivery_loop rest (added @ [delivery]) (dels @ [delivery]))"

fun add_delivery :: "delivery_item body \<Rightarrow> store \<Rightarrow> (exn + delivery_rec list) \<times> store" where
  "add_delivery (Batch items) s =
    (case add_delivery_loop items [] (deliveries s) of
       (res, dels') \<Rightarrow> (res, s\<lparr>deliveries := dels'\<rparr>))"
| "add_delivery (Single d) s =
    (case new_delivery (deliveries s) d of
       Inl e \<Rightarrow> (Inl e, s)
     | Inr delivery \<Rightarrow> (Inr [delivery], s\<lparr>deliveries := deliveries s @ [delivery]\<rparr>))"

definition new_driver :: "driver_rec list \<Rightarrow> driver_item \<Rightarrow> exn + driver_rec" where
  "new_driver drs d =
    (case di_driver d of
       None \<Rightarrow> Inl (KeyError ''driver'')
     | Some nm \<Rightarrow>
    (case di_lat d of
       None \<Rightarrow> Inl (KeyError ''lat'')
     | Some la \<Rightarrow>
    (case di_lon d of
       None \<Rightarrow> Inl (KeyError ''lon'')
     | Some lo \<Rightarrow>
         Inr \<lparr>drv_id = int (length drs) + 1,
              imei = (case di_imei d of None \<Rightarrow> ''000000000000000'' | Some i \<Rightarrow> i),
              driver = nm,
              drv_lat = la,
              drv_lon = lo,
              current_load = 0\<rparr>)))"

fun add_driver_loop ::
  "driver_item list \<Rightarrow> driver_rec list \<Rightarrow> driver_rec list \<Rightarrow>
     (exn + driver_rec list) \<times> driver_rec list" where
  "add_driver_loop [] added drs = (Inr added, drs)"
| "add_driver_loop (d # rest) added drs =
    (case new_driver drs d of
       Inl e \<Rightarrow> (Inl e, drs)
     | Inr drv \<Rightarrow> add_driver_loop rest (added @ [drv]) (drs @ [drv]))"

fun add_driver :: "driver_item body \<Rightarrow> store \<Rightarrow> (exn + driver_rec list) \<times> store" where
  "add_driver (Batch items) s =
    (case add_driver_loop items [] (drivers s) of
       (res, drs') \<Rightarrow> (res, s\<lparr>drivers := drs'\<rparr>))"
| "add_driver (Single d) s =
    (case new_driver (drivers s) d of
       Inl e \<Rightarrow> (Inl e, s)
     | Inr drv \<Rightarrow> (Inr [drv], s\<lparr>drivers := drivers s @ [drv]\<rparr>))"

section \<open>Reachable stores\<close>

text \<open>
  The stores the service can be in: the seeded one, and whatever the three writing
  endpoints (\<^verbatim>\<open>/delivery/request\<close>, \<^verbatim>\<open>/driver/add\<close>, \<^verbatim>\<open>/delivery/assign\<close>) leave behind,
  also when they end in an exception.
\<close>

inductive reachable :: "env \<Rightarrow> store \<Rightarrow> bool" for E :: env where
  seeded: "reachable E init_store"
| request: "reachable E s \<Longrightarrow> reachable E (snd (add_delivery req s))"
| register: "reachable E s \<Longrightarrow> reachable E (snd (add_driver req s))"
| assign: "reachable E s \<Longrightarrow> reachable E (snd (assign_all E s))"

section \<open>Clustering\<close>

text \<open>
  \<^verbatim>\<open>KMeans(n_clusters=k, random_state=42).fit(coords)\<close> refuses to fit fewer samples than
  clusters (\<^verbatim>\<open>ValueError: n_samples=.. should be >= n_clusters=..\<close>) and a cluster count
  below one; otherwise it yields one label per sample. The labels themselves are the
  library's (\<open>kmeans_labels\<close>).
\<close>

definition KMeans_fit :: "env \<Rightarrow> nat \<Rightarrow> point list \<Rightarrow> exn + nat list" where
  "KMeans_fit E n_clusters coords =
    (if n_clusters = 0 then Inl (ValueError ''n_clusters must be an int in the range [1, inf)'')
     else if length coords < n_clusters
     then Inl (ValueError ''n_samples should be >= n_clusters'')
     else Inr (kmeans_labels E n_clusters coords))"

text \<open>
  The loop \<^verbatim>\<open>for idx, label in enumerate(labels): clusters[label].append(deliveries[idx])\<close>
  over the dictionary \<^verbatim>\<open>{i: [] for i in range(n_clusters)}\<close>.
\<close>

fun fill_clusters ::
  "(nat \<rightharpoonup> delivery_rec list) \<Rightarrow> nat \<Rightarrow> nat list \<Rightarrow> delivery_rec list \<Rightarrow>
     exn + (nat \<rightharpoonup> delivery_rec list)" where
  "fill_clusters clusters idx [] dels = Inr clusters"
| "fill_clusters clusters idx (label # labels) dels =
    (case clusters label of
       None \<Rightarrow> Inl (KeyError ''label'')
     | Some members \<Rightarrow>
         if idx < length dels
         then fill_clusters (clusters(label \<mapsto> members @ [dels ! idx])) (Suc idx) labels dels
         else Inl IndexError)"

definition cluster_deliveries ::
  "env \<Rightarrow> delivery_rec list \<Rightarrow> nat \<Rightarrow> exn + (nat \<rightharpoonup> delivery_rec list)" where
  "cluster_deliveries E dels n_clusters =
    (if length dels \<le> 1 then Inr [0 \<mapsto> dels]
     else
       (case KMeans_fit E n_clusters (map (\<lambda>d. (dlv_lat d, dlv_lon d)) dels) of
          Inl e \<Rightarrow> Inl e
        | Inr labels \<Rightarrow>
            fill_clusters (\<lambda>i. if i < n_clusters then Some [] else None) 0 labels dels))"

section \<open>Predicates used in the statements\<close>

text \<open>
  \<open>geofenced d\<close>: the test \<^verbatim>\<open>if check_geofence(d['lat'], d['lon'])\<close> succeeds.
  \<open>settled d\<close>: the loop of \<^verbatim>\<open>assign_all\<close> passes over \<open>d\<close> (one of its two \<^verbatim>\<open>continue\<close>s).
\<close>

definition geofenced :: "delivery_rec \<Rightarrow> bool" where
  "geofenced d =
    (case check_geofence (dlv_lat d) (dlv_lon d) of Inl e \<Rightarrow> False | Inr g \<Rightarrow> truthy_str g)"

definition settled :: "delivery_rec \<Rightarrow> bool" where
  "settled d = (truthy_int (assigned_driver d) \<or> geofenced d)"

text \<open>
  Identifiers are positions: the seeded drivers carry 1, 2, 3 and every later record gets
  \<^verbatim>\<open>len(store) + 1\<close>; nothing is ever removed.
\<close>

definition driver_ids_ok :: "driver_rec list \<Rightarrow> bool" where
  "driver_ids_ok drs = (map drv_id drs = map int [1..<Suc (length drs)])"

definition delivery_ids_ok :: "delivery_rec list \<Rightarrow> bool" where
  "delivery_ids_ok dels = (map dlv_id dels = map int [1..<Suc (length dels)])"

definition refs_ok :: "driver_rec list \<Rightarrow> delivery_rec list \<Rightarrow> bool" where
  "refs_ok drs dels =
    list_all (\<lambda>d. case assigned_driver d of
                    None \<Rightarrow> True
                  | Some k \<Rightarrow> 1 \<le> k \<and> k \<le> int (length drs)) dels"

definition store_inv :: "store \<Rightarrow> bool" where
  "store_inv s =
    (drivers s \<noteq> [] \<and> driver_ids_ok (drivers s) \<and> delivery_ids_ok (deliveries s)
     \<and> refs_ok (drivers s) (deliveries s))"

section \<open>A two-node road network\<close>

text \<open>
  A stand-in for the libraries, used to run the functions on concrete inputs: the network
  with node 1 at (14.5547, 121.0244) and node 2 at (14.5600, 121.0200), joined by one
  edge from 1 to 2 of the given length in metres. The nearest node is the closer of the
  two (node 1 on a tie); a path exists from a node to itself and from 1 to 2. The distance
  stand-in is 111 km per degree along each axis; every sample gets label 0; floats are
  summed from the left.
\<close>

definition two_node_env :: "real \<Rightarrow> env" where
  "two_node_env len =
    \<lparr>haversine = (\<lambda>p q. Inr (111 * (\<bar>fst p - fst q\<bar> + \<bar>snd p - snd q\<bar>))),
     nearest_nodes = (\<lambda>X Y.
        if (Y - 14.5547)\<^sup>2 + (X - 121.0244)\<^sup>2 \<le> (Y - 14.56)\<^sup>2 + (X - 121.02)\<^sup>2
        then Inr 1 else Inr 2),
     shortest_path = (\<lambda>a b.
        if a = 1 \<and> b = 2 then Inr [1, 2]
        else if a = b \<and> (a = 1 \<or> a = 2) then Inr [a]
        else Inl (LibraryError ''NetworkXNoPath'')),
     node_yx = (\<lambda>n.
        if n = 1 then Some (14.5547, 121.0244)
        else if n = 2 then Some (14.56, 121.02)
        else None),
     route_edge_lengths = (\<lambda>ns.
        if ns = [1, 2] then Inr [len]
        else if ns = [1] \<or> ns = [2] then Inr []
        else Inl (LibraryError ''no such edge'')),
     shortest_path_length = (\<lambda>a b.
        if a = 1 \<and> b = 2 then Inr len
        else if a = b \<and> (a = 1 \<or> a = 2) then Inr 0
        else Inl (LibraryError ''NetworkXNoPath'')),
     kmeans_labels = (\<lambda>k X. map (\<lambda>x. 0) X),
     float_sum = sum_left\<rparr>"

text \<open>
  Two request bodies: a job at (14.5555, 121.0240), which lies in the seeded geofence, and a
  job at (14.56, 121.02), which does not.
\<close>

definition job_in_zone :: delivery_item where
  "job_in_zone = \<lparr>it_lat = Some 14.5555, it_lon = Some 121.0240, it_address = None\<rparr>"

definition job_outside :: delivery_item where
  "job_outside = \<lparr>it_lat = Some 14.56, it_lon = Some 121.02, it_address = Some ''Ayala Avenue''\<rparr>"

text \<open>
  A job at Bob's position (14.555, 121.03): Bob is the nearest driver, Charlie the least
  loaded, and Alice has the least sum of the two. A job with latitude 95.
\<close>

definition job_near_bob :: delivery_item where
  "job_near_bob = \<lparr>it_lat = Some 14.555, it_lon = Some 121.03, it_address = None\<rparr>"

definition job_lat_95 :: delivery_item where
  "job_lat_95 = \<lparr>it_lat = Some 95, it_lon = Some 121.02, it_address = None\<rparr>"

text \<open>The stores these requests lead to from the seeded store.\<close>

definition store_outside :: store where
  "store_outside = snd (add_delivery (Single job_outside) init_store)"

definition store_in_zone :: store where
  "store_in_zone = snd (add_delivery (Single job_in_zone) init_store)"

definition store_both :: store where
  "store_both = snd (add_delivery (Batch [job_in_zone, job_outside]) init_store)"

definition store_near_bob :: store where
  "store_near_bob = snd (add_delivery (Single job_near_bob) init_store)"

definition store_lat_95 :: store where
  "store_lat_95 = snd (add_delivery (Batch [job_lat_95, job_outside]) init_store)"

text \<open>
  The same network with a distance function that checks its arguments, as the haversine
  package does by default from version 2.7 on: a latitude outside [-90, 90] or a longitude
  outside [-180, 180] raises \<^verbatim>\<open>ValueError\<close>.
\<close>

definition in_range :: "point \<Rightarrow> bool" where
  "in_range p = (- 90 \<le> fst p \<and> fst p \<le> 90 \<and> - 180 \<le> snd p \<and> snd p \<le> 180)"

definition checked_env :: env where
  "checked_env =
    (two_node_env 800)\<lparr>haversine := (\<lambda>p q.
        if in_range p \<and> in_range q then haversine (two_node_env 800) p q
        else Inl (ValueError ''Latitude or longitude out of range''))\<rparr>"

section \<open>Rounding to a double\<close>

lemma round_half_even_close: "\<bar>of_int (round_half_even y) - y\<bar> \<le> 1 / 2"
  unfolding round_half_even_def Let_def by (auto simp: abs_if) linarith+

lemma round_half_even_near:
  assumes "\<bar>y - of_int k\<bar> < 1 / 2" shows "round_half_even y = k"
proof -
  have "\<lfloor>y\<rfloor> = k \<or> \<lfloor>y\<rfloor> = k - 1" using assms by (auto simp: abs_if split: if_splits) linarith+
  then show ?thesis
  proof
    assume f: "\<lfloor>y\<rfloor> = k"
    then have "y - of_int k < 1 / 2" using assms by (auto simp: abs_if split: if_splits)
    then show ?thesis by (simp add: round_half_even_def Let_def f)
  next
    assume f: "\<lfloor>y\<rfloor> = k - 1"
    then have "y < of_int k" by linarith
    with assms have "1 / 2 < y - of_int (k - 1)" by (auto simp: abs_if split: if_splits)
    then show ?thesis by (simp add: round_half_even_def Let_def f)
  qed
qed

lemma round_half_even_int [simp]: "round_half_even (of_int n) = n"
  by (rule round_half_even_near) simp

lemma exp_up_spec:
  "1 \<le> a \<Longrightarrow> a < 2 ^ Suc n \<Longrightarrow>
     0 \<le> exp_up n a \<and> 2 powi (exp_up n a) \<le> a \<and> a < 2 powi (exp_up n a + 1)"
proof (induction n arbitrary: a)
  case 0
  then show ?case by simp
next
  case (Suc n)
  show ?case
  proof (cases "a < 2")
    case True
    with Suc.prems show ?thesis by simp
  next
    case False
    with Suc.prems have "1 \<le> a / 2" "a / 2 < 2 ^ Suc n" by simp_all
    from Suc.IH[OF this] have ih: "0 \<le> exp_up n (a / 2)" "2 powi (exp_up n (a / 2)) \<le> a / 2"
      "a / 2 < 2 powi (exp_up n (a / 2) + 1)" by simp_all
    have "2 powi (exp_up n (a / 2) + 1) = 2 powi (exp_up n (a / 2)) * (2::real)"
      by (simp add: power_int_add)
    moreover have "2 powi (exp_up n (a / 2) + 1 + 1) = 2 powi (exp_up n (a / 2) + 1) * (2::real)"
      by (simp add: power_int_add)
    ultimately show ?thesis using ih False by simp
  qed
qed

lemma exp_up_le: "exp_up n a \<le> int n"
  by (induction n arbitrary: a) auto

lemma exp_up_nonneg: "0 \<le> exp_up n a"
  by (induction n arbitrary: a) auto

lemma exp_up_lower: "1 \<le> a \<Longrightarrow> 2 powi (exp_up n a) \<le> a"
proof (induction n arbitrary: a)
  case 0
  then show ?case by simp
next
  case (Suc n)
  show ?case
  proof (cases "a < 2")
    case True
    with Suc.prems show ?thesis by simp
  next
    case False
    then have "1 \<le> a / 2" by simp
    from Suc.IH[OF this] have "2 powi (exp_up n (a / 2)) \<le> a / 2" .
    moreover have "2 powi (exp_up n (a / 2) + 1) = 2 powi (exp_up n (a / 2)) * (2::real)"
      by (simp add: power_int_add)
    ultimately show ?thesis using False by simp
  qed
qed

lemma exp_down_ge: "- int n \<le> exp_down n a"
proof (induction n arbitrary: a)
  case 0
  show ?case by simp
next
  case (Suc n)
  from Suc.IH[of "a * 2"] show ?case by simp
qed

lemma exp_down_lower: "0 < a \<Longrightarrow> a < 1 \<Longrightarrow> 1 \<le> a * 2 ^ n \<Longrightarrow> 2 powi (exp_down n a) \<le> a"
proof (induction n arbitrary: a)
  case 0
  then show ?case by simp
next
  case (Suc n)
  have "exp_down (Suc n) a = exp_down n (a * 2) - 1" using Suc.prems by simp
  moreover have "2 powi (exp_down n (a * 2)) \<le> a * 2"
  proof (cases "1 \<le> a * 2")
    case True
    then have "exp_down n (a * 2) = 0" by (cases n) simp_all
    with True show ?thesis by simp
  next
    case False
    with Suc.prems have "0 < a * 2" "a * 2 < 1" "1 \<le> a * 2 * 2 ^ n" by (simp_all add: mult.assoc)
    from Suc.IH[OF this] show ?thesis .
  qed
  moreover have "2 powi (exp_down n (a * 2) - 1) = 2 powi (exp_down n (a * 2)) / (2::real)"
    by (simp add: power_int_diff)
  ultimately show ?case by simp
qed

lemma pow2_min_normal: "(2::real) powi (- 1022) * 2 ^ 1022 = 1"
proof -
  have "(2::real) powi (- 1022) * 2 powi 1022 = 2 powi (- 1022 + 1022)"
    by (rule power_int_add[symmetric]) simp
  also have "\<dots> = 1" by (simp only: add.left_inverse power_int_0_right)
  finally show ?thesis by (simp only: power_int_numeral)
qed

lemma float_exponent_lower:
  assumes "2 powi (- 1022) \<le> \<bar>x\<bar>"
  shows "2 powi (float_exponent x) \<le> \<bar>x\<bar>"
proof (cases "1 \<le> \<bar>x\<bar>")
  case True
  then have "float_exponent x = exp_up 1023 \<bar>x\<bar>" by (simp only: float_exponent_def if_True)
  with exp_up_lower[OF True, of 1023] show ?thesis by (simp only:)
next
  case False
  then have fe: "float_exponent x = exp_down 1022 \<bar>x\<bar>" by (simp only: float_exponent_def if_False)
  have "(0::real) < 2 powi (- 1022)" by (rule zero_less_power_int) simp
  with assms have pos: "0 < \<bar>x\<bar>" by linarith
  have "2 powi (- 1022) * 2 ^ 1022 \<le> \<bar>x\<bar> * (2::real) ^ 1022"
    using assms by (rule mult_right_mono) (rule zero_le_power, simp)
  then have one: "1 \<le> \<bar>x\<bar> * 2 ^ 1022" by (simp only: pow2_min_normal)
  from False have lt: "\<bar>x\<bar> < 1" by linarith
  from exp_down_lower[OF pos lt one] show ?thesis by (simp only: fe)
qed

lemma to_double_0 [simp]: "to_double 0 = 0"
  by (simp add: to_double_def)

lemma round_half_even_0 [simp]: "round_half_even 0 = 0"
  by (simp add: round_half_even_def)

lemma py_round_0 [simp]: "py_round 0 n = 0"
  by (simp add: py_round_def)

lemma sum_left_Nil [simp]: "sum_left [] = 0"
  by (simp add: sum_left_def)

lemma sum_left_single [simp]: "sum_left [x] = to_double x"
  by (simp add: sum_left_def)

lemma to_double_abs_error:
  "\<bar>to_double x - x\<bar> \<le> 2 powi (float_exponent x - 52) / 2"
proof (cases "x = 0")
  case True
  then show ?thesis by simp
next
  case False
  define ulp :: real where "ulp = 2 powi (float_exponent x - 52)"
  have pos: "0 < ulp" unfolding ulp_def by (rule zero_less_power_int) simp
  have "to_double x - x = (of_int (round_half_even (x / ulp)) - x / ulp) * ulp"
    using pos False by (simp add: to_double_def Let_def ulp_def[symmetric] field_simps)
  then have "\<bar>to_double x - x\<bar> = \<bar>of_int (round_half_even (x / ulp)) - x / ulp\<bar> * ulp"
    using pos by (simp add: abs_mult)
  also have "\<dots> \<le> (1 / 2) * ulp"
    using round_half_even_close[of "x / ulp"] pos by (intro mult_right_mono) simp_all
  finally show ?thesis by (simp add: ulp_def)
qed

lemma to_double_rel_error:
  assumes "2 powi (- 1022) \<le> \<bar>x\<bar>"
  shows "\<bar>to_double x - x\<bar> \<le> \<bar>x\<bar> / 2 ^ 53"
proof -
  have "(2::real) powi (float_exponent x - 52) = 2 powi (float_exponent x) / 2 powi 52"
    by (simp add: power_int_diff)
  then have "(2::real) powi (float_exponent x - 52) / 2 = 2 powi (float_exponent x) / 2 ^ 53"
    by simp
  with to_double_abs_error[of x] have "\<bar>to_double x - x\<bar> \<le> 2 powi (float_exponent x) / 2 ^ 53"
    by simp
  also have "\<dots> \<le> \<bar>x\<bar> / 2 ^ 53"
    using float_exponent_lower[OF assms] by (intro divide_right_mono) simp_all
  finally show ?thesis .
qed

lemma to_double_bounds:
  assumes "2 powi (- 1022) \<le> x"
  shows "x * (1 - 1 / 2 ^ 53) \<le> to_double x" "to_double x \<le> x * (1 + 1 / 2 ^ 53)"
proof -
  have "(0::real) < 2 powi (- 1022)" by (rule zero_less_power_int) simp
  with assms have x: "0 < x" by linarith
  then have "2 powi (- 1022) \<le> \<bar>x\<bar>" using assms by simp
  from to_double_rel_error[OF this] x have "\<bar>to_double x - x\<bar> \<le> x / 2 ^ 53" by simp
  then have "to_double x - x \<le> x / 2 ^ 53" "- (x / 2 ^ 53) \<le> to_double x - x"
    by (simp_all only: abs_le_iff minus_diff_eq) linarith+
  then show "x * (1 - 1 / 2 ^ 53) \<le> to_double x" "to_double x \<le> x * (1 + 1 / 2 ^ 53)"
    by (simp_all add: algebra_simps)
qed

lemma tiny_le:
  assumes "1 / 2 ^ 20 \<le> (x::real)" shows "2 powi (- 1022) \<le> x"
proof -
  have "(2::real) powi (- 1022) * 2 ^ 1022 \<le> 1 / 2 ^ 20 * 2 ^ 1022"
  proof -
    have "(1::real) / 2 ^ 20 * 2 ^ 1022 = 2 ^ 1002"
    proof -
      have "(2::real) ^ 1022 = 2 ^ 20 * 2 ^ 1002" by (simp only: power_add[symmetric]) simp
      then show ?thesis by (simp only:) simp
    qed
    moreover have "(1::real) \<le> 2 ^ 1002" by (rule one_le_power) simp
    ultimately show ?thesis by (simp only: pow2_min_normal)
  qed
  then have "(2::real) powi (- 1022) \<le> 1 / 2 ^ 20"
    by (rule mult_right_le_imp_le) (rule zero_less_power, simp)
  with assms show ?thesis by linarith
qed

lemma exp_up_numeral:
  "exp_up (numeral k) a = (if a < 2 then 0 else exp_up (pred_numeral k) (a / 2) + 1)"
  by (simp add: numeral_eq_Suc)

lemma exp_down_numeral:
  "exp_down (numeral k) a = (if 1 \<le> a then 0 else exp_down (pred_numeral k) (a * 2) - 1)"
  by (simp add: numeral_eq_Suc)

lemmas float_eval = to_double_def float_exponent_def exp_up_numeral exp_down_numeral
  round_half_even_def Let_def

section \<open>The first minimal element\<close>

lemma min_scan_spec:
  "min_scan key best bk i xs = Inr j \<Longrightarrow>
     (j = best \<and> (\<forall>x\<in>set xs. \<exists>k. key x = Inr k \<and> bk \<le> k))
   \<or> (i \<le> j \<and> j < i + length xs \<and>
        (\<exists>kj. key (xs ! (j - i)) = Inr kj \<and> kj < bk \<and>
           (\<forall>m<length xs. \<exists>k. key (xs ! m) = Inr k \<and> kj \<le> k \<and> (m < j - i \<longrightarrow> kj < k))))"
proof (induction xs arbitrary: best bk i)
  case Nil
  then show ?case by simp
next
  case (Cons x xs)
  then obtain k where k: "key x = Inr k" by (auto split: sum.splits)
  show ?case
  proof (cases "k < bk")
    case True
    with Cons.prems k have rec: "min_scan key i k (Suc i) xs = Inr j" by simp
    from Cons.IH[OF rec] show ?thesis
    proof
      assume a: "j = i \<and> (\<forall>x\<in>set xs. \<exists>k'. key x = Inr k' \<and> k \<le> k')"
      have "\<forall>m<length (x # xs). \<exists>k'. key ((x # xs) ! m) = Inr k' \<and> k \<le> k' \<and> (m < j - i \<longrightarrow> k < k')"
      proof (intro allI impI)
        fix m assume "m < length (x # xs)"
        then show "\<exists>k'. key ((x # xs) ! m) = Inr k' \<and> k \<le> k' \<and> (m < j - i \<longrightarrow> k < k')"
          using a k by (cases m) auto
      qed
      then show ?thesis using a k True by auto
    next
      assume b: "Suc i \<le> j \<and> j < Suc i + length xs \<and>
        (\<exists>kj. key (xs ! (j - Suc i)) = Inr kj \<and> kj < k \<and>
           (\<forall>m<length xs. \<exists>k'. key (xs ! m) = Inr k' \<and> kj \<le> k' \<and> (m < j - Suc i \<longrightarrow> kj < k')))"
      then obtain kj where kj: "key (xs ! (j - Suc i)) = Inr kj" "kj < k"
        and all: "\<forall>m<length xs. \<exists>k'. key (xs ! m) = Inr k' \<and> kj \<le> k' \<and> (m < j - Suc i \<longrightarrow> kj < k')"
        by blast
      from b have ji: "j - i = Suc (j - Suc i)" by arith
      have "\<forall>m<length (x # xs). \<exists>k'. key ((x # xs) ! m) = Inr k' \<and> kj \<le> k' \<and> (m < j - i \<longrightarrow> kj < k')"
      proof (intro allI impI)
        fix m assume m: "m < length (x # xs)"
        show "\<exists>k'. key ((x # xs) ! m) = Inr k' \<and> kj \<le> k' \<and> (m < j - i \<longrightarrow> kj < k')"
        proof (cases m)
          case 0
          then show ?thesis using k kj by simp
        next
          case (Suc m')
          then show ?thesis using all m ji by simp
        qed
      qed
      moreover have "key ((x # xs) ! (j - i)) = Inr kj" using kj ji by simp
      moreover have "kj < bk" using kj True by simp
      ultimately show ?thesis using b by auto
    qed
  next
    case False
    with Cons.prems k have rec: "min_scan key best bk (Suc i) xs = Inr j" by simp
    from Cons.IH[OF rec] show ?thesis
    proof
      assume a: "j = best \<and> (\<forall>x\<in>set xs. \<exists>k'. key x = Inr k' \<and> bk \<le> k')"
      then show ?thesis using k False by auto
    next
      assume b: "Suc i \<le> j \<and> j < Suc i + length xs \<and>
        (\<exists>kj. key (xs ! (j - Suc i)) = Inr kj \<and> kj < bk \<and>
           (\<forall>m<length xs. \<exists>k'. key (xs ! m) = Inr k' \<and> kj \<le> k' \<and> (m < j - Suc i \<longrightarrow> kj < k')))"
      then obtain kj where kj: "key (xs ! (j - Suc i)) = Inr kj" "kj < bk"
        and all: "\<forall>m<length xs. \<exists>k'. key (xs ! m) = Inr k' \<and> kj \<le> k' \<and> (m < j - Suc i \<longrightarrow> kj < k')"
        by blast
      from b have ji: "j - i = Suc (j - Suc i)" by arith
      have "\<forall>m<length (x # xs). \<exists>k'. key ((x # xs) ! m) = Inr k' \<and> kj \<le> k' \<and> (m < j - i \<longrightarrow> kj < k')"
      proof (intro allI impI)
        fix m assume m: "m < length (x # xs)"
        show "\<exists>k'. key ((x # xs) ! m) = Inr k' \<and> kj \<le> k' \<and> (m < j - i \<longrightarrow> kj < k')"
        proof (cases m)
          case 0
          then show ?thesis using k kj False by simp
        next
          case (Suc m')
          then show ?thesis using all m ji by simp
        qed
      qed
      moreover have "key ((x # xs) ! (j - i)) = Inr kj" using kj ji by simp
      ultimately show ?thesis using b kj by auto
    qed
  qed
qed

lemma py_min_index_spec:
  assumes "py_min_index key xs = Inr j"
  shows "j < length xs \<and>
         (\<exists>kj. key (xs ! j) = Inr kj \<and>
            (\<forall>m<length xs. \<exists>k. key (xs ! m) = Inr k \<and> kj \<le> k \<and> (m < j \<longrightarrow> kj < k)))"
proof (cases xs)
  case Nil
  with assms show ?thesis by simp
next
  case (Cons x ys)
  with assms obtain k0 where k0: "key x = Inr k0" and ms: "min_scan key 0 k0 1 ys = Inr j"
    by (auto split: sum.splits)
  from min_scan_spec[OF ms] show ?thesis
  proof
    assume a: "j = 0 \<and> (\<forall>y\<in>set ys. \<exists>k. key y = Inr k \<and> k0 \<le> k)"
    have "\<forall>m<length xs. \<exists>k. key (xs ! m) = Inr k \<and> k0 \<le> k \<and> (m < j \<longrightarrow> k0 < k)"
    proof (intro allI impI)
      fix m assume "m < length xs"
      then show "\<exists>k. key (xs ! m) = Inr k \<and> k0 \<le> k \<and> (m < j \<longrightarrow> k0 < k)"
        using a k0 Cons by (cases m) auto
    qed
    then show ?thesis using a k0 Cons by auto
  next
    assume b: "1 \<le> j \<and> j < 1 + length ys \<and>
        (\<exists>kj. key (ys ! (j - 1)) = Inr kj \<and> kj < k0 \<and>
           (\<forall>m<length ys. \<exists>k. key (ys ! m) = Inr k \<and> kj \<le> k \<and> (m < j - 1 \<longrightarrow> kj < k)))"
    then obtain kj where kj: "key (ys ! (j - 1)) = Inr kj" "kj < k0"
      and all: "\<forall>m<length ys. \<exists>k. key (ys ! m) = Inr k \<and> kj \<le> k \<and> (m < j - 1 \<longrightarrow> kj < k)"
      by blast
    from b obtain j' where j': "j = Suc j'" by (cases j) auto
    have "\<forall>m<length xs. \<exists>k. key (xs ! m) = Inr k \<and> kj \<le> k \<and> (m < j \<longrightarrow> kj < k)"
    proof (intro allI impI)
      fix m assume m: "m < length xs"
      show "\<exists>k. key (xs ! m) = Inr k \<and> kj \<le> k \<and> (m < j \<longrightarrow> kj < k)"
      proof (cases m)
        case 0
        then show ?thesis using k0 kj Cons by simp
      next
        case (Suc m')
        then show ?thesis using all m j' Cons by simp
      qed
    qed
    moreover have "key (xs ! j) = Inr kj" using kj j' Cons by simp
    ultimately show ?thesis using b Cons by auto
  qed
qed

lemma min_scan_total:
  "\<forall>x\<in>set xs. \<exists>k. key x = Inr k \<Longrightarrow> \<exists>j. min_scan key best bk i xs = Inr j"
  by (induction xs arbitrary: best bk i) (auto split: sum.splits)

lemma py_min_index_total:
  "xs \<noteq> [] \<Longrightarrow> \<forall>x\<in>set xs. \<exists>k. key x = Inr k \<Longrightarrow> \<exists>j. py_min_index key xs = Inr j"
  using min_scan_total by (cases xs) (auto split: sum.splits)

section \<open>The seeded geofence is an open rectangle\<close>

lemma nogo_edges:
  "ring_edges [(14.555, 121.023), (14.556, 121.023), (14.556, 121.025), (14.555, 121.025)]
   = [((14.555, 121.023), (14.556, 121.023)), ((14.556, 121.023), (14.556, 121.025)),
      ((14.556, 121.025), (14.555, 121.025)), ((14.555, 121.025), (14.555, 121.023::real))]"
  by (simp add: ring_edges_def)

lemma seg_south: "on_segment (14.555, 121.023) (14.556, 121.023) (x, y) = (14.555 \<le> x \<and> x \<le> 14.556 \<and> y = 121.023)"
  by (auto simp add: on_segment_def)
lemma seg_east: "on_segment (14.556, 121.023) (14.556, 121.025) (x, y) = (121.023 \<le> y \<and> y \<le> 121.025 \<and> x = 14.556)"
  by (auto simp add: on_segment_def)
lemma seg_north: "on_segment (14.556, 121.025) (14.555, 121.025) (x, y) = (14.555 \<le> x \<and> x \<le> 14.556 \<and> y = 121.025)"
  by (auto simp add: on_segment_def)
lemma seg_west: "on_segment (14.555, 121.025) (14.555, 121.023) (x, y) = (121.023 \<le> y \<and> y \<le> 121.025 \<and> x = 14.555)"
  by (auto simp add: on_segment_def)

lemma ray_south: "ray_crosses (14.555, 121.023) (14.556, 121.023) (x, y) = False"
  by (simp add: ray_crosses_def)
lemma ray_east: "ray_crosses (14.556, 121.023) (14.556, 121.025) (x, y) = (121.023 \<le> y \<and> y < 121.025 \<and> x < 14.556)"
  by (auto simp add: ray_crosses_def)
lemma ray_north: "ray_crosses (14.556, 121.025) (14.555, 121.025) (x, y) = False"
  by (simp add: ray_crosses_def)
lemma ray_west: "ray_crosses (14.555, 121.025) (14.555, 121.023) (x, y) = (121.023 \<le> y \<and> y < 121.025 \<and> x < 14.555)"
  by (auto simp add: ray_crosses_def)

lemma nogo_contains:
  "contains [(14.555, 121.023), (14.556, 121.023), (14.556, 121.025), (14.555, 121.025)] (x, y)
   = (14.555 < x \<and> x < 14.556 \<and> 121.023 < y \<and> y < 121.025)"
  unfolding contains_def on_boundary_def crossings_def nogo_edges
  apply (simp only: list_ex_Nil_iff list_ex_Cons_iff filter.simps split_conv seg_south seg_east seg_north seg_west
     ray_south ray_east ray_north ray_west)
  apply (simp only: if_False list.size split: if_splits)
  by auto

lemma check_geofence_char:
  "check_geofence lat lon =
     Inr (if 14.555 < lat \<and> lat < 14.556 \<and> 121.023 < lon \<and> lon < 121.025
          then Some ''No-Go Zone Makati'' else None)"
proof -
  let ?vs = "[(14.555, 121.023), (14.556, 121.023), (14.556, 121.025), (14.555, 121.025::real)]"
  have P: "Polygon ?vs = Inr ?vs" by (simp add: Polygon_def)
  show ?thesis
    unfolding check_geofence_def geofences_def
    by (simp only: check_geofence_in.simps geofence_rec.simps P nogo_contains sum.case
          if_distrib[of Inr] split: if_splits)
qed

section \<open>The assignment loop\<close>

lemma check_geofence_Inr: "\<exists>g. check_geofence lat lon = Inr g"
  by (simp add: check_geofence_char)

lemma geofenced_iff:
  "geofenced d = (14.555 < dlv_lat d \<and> dlv_lat d < 14.556 \<and> 121.023 < dlv_lon d \<and> dlv_lon d < 121.025)"
  by (simp add: geofenced_def check_geofence_char)

lemma assign_driver_Inr:
  assumes "assign_driver E d drs = Inr (drv, d1, drs1)"
  shows "\<exists>i<length drs. drv = (drs ! i)\<lparr>current_load := current_load (drs ! i) + 1\<rparr>
           \<and> drs1 = drs[i := drv]
           \<and> d1 = d\<lparr>assigned_driver := Some (drv_id (drs ! i))\<rparr>
           \<and> py_min_index (score E d) drs = Inr i"
proof -
  from assms obtain i where i: "py_min_index (score E d) drs = Inr i"
    by (auto simp: assign_driver_def split: sum.splits)
  from py_min_index_spec[OF i] have "i < length drs" by simp
  with assms i show ?thesis by (auto simp: assign_driver_def Let_def)
qed

lemma assign_driver_ids:
  assumes "assign_driver E d drs = Inr (drv, d1, drs1)"
  shows "map drv_id drs1 = map drv_id drs" "length drs1 = length drs"
        "\<exists>w\<in>set drs. assigned_driver d1 = Some (drv_id w) \<and> drv_id drv = drv_id w"
        "dlv_id d1 = dlv_id d" "dlv_lat d1 = dlv_lat d" "dlv_lon d1 = dlv_lon d"
proof -
  from assign_driver_Inr[OF assms] obtain i where i: "i < length drs"
    and drv: "drv = (drs ! i)\<lparr>current_load := current_load (drs ! i) + 1\<rparr>"
    and drs1: "drs1 = drs[i := drv]"
    and d1: "d1 = d\<lparr>assigned_driver := Some (drv_id (drs ! i))\<rparr>" by blast
  show "map drv_id drs1 = map drv_id drs"
    using i by (simp add: drs1 drv map_update list_update_same_conv)
  show "length drs1 = length drs" by (simp add: drs1)
  show "\<exists>w\<in>set drs. assigned_driver d1 = Some (drv_id w) \<and> drv_id drv = drv_id w"
    using i by (auto simp: d1 drv intro!: bexI[of _ "drs ! i"])
  show "dlv_id d1 = dlv_id d" "dlv_lat d1 = dlv_lat d" "dlv_lon d1 = dlv_lon d" by (simp_all add: d1)
qed

text \<open>One iteration of the loop, by cases.\<close>

lemma assign_loop_settled:
  assumes "settled d"
  shows "assign_loop E (d # ds) drs =
    (case assign_loop E ds drs of (err, ds', drs', resp) \<Rightarrow> (err, d # ds', drs', resp))"
proof -
  obtain g where g: "check_geofence (dlv_lat d) (dlv_lon d) = Inr g"
    using check_geofence_Inr by blast
  from assms have "truthy_int (assigned_driver d) \<or> truthy_str g"
    by (simp add: settled_def geofenced_def g)
  then show ?thesis by (auto simp: g split: prod.splits)
qed

lemma assign_loop_unsettled:
  assumes "\<not> settled d"
  shows "assign_loop E (d # ds) drs =
    (case assign_driver E d drs of
       Inl e \<Rightarrow> (Some e, d # ds, drs, [])
     | Inr (drv, d1, drs1) \<Rightarrow>
         (case suggest_route E (drv_lat drv, drv_lon drv) (dlv_lat d1, dlv_lon d1) of
            (route, eta) \<Rightarrow>
              (let d2 = d1\<lparr>eta_min := Some eta, route_coords := Some route\<rparr>
               in (case assign_loop E ds drs1 of
                     (err, ds', drs', resp) \<Rightarrow>
                       (err, d2 # ds', drs', (dlv_id d2, driver drv, eta) # resp)))))"
proof -
  obtain g where g: "check_geofence (dlv_lat d) (dlv_lon d) = Inr g"
    using check_geofence_Inr by blast
  from assms have "\<not> truthy_int (assigned_driver d)" "\<not> truthy_str g"
    by (simp_all add: settled_def geofenced_def g)
  then show ?thesis by (simp add: g)
qed

lemma assign_loop_Cons_cases:
  assumes "assign_loop E (d # ds) drs = (err, ds', drs', resp)"
  obtains
    (skip) ds2 where "settled d" "assign_loop E ds drs = (err, ds2, drs', resp)" "ds' = d # ds2"
  | (fail) e where "\<not> settled d" "assign_driver E d drs = Inl e" "err = Some e" "ds' = d # ds"
      "drs' = drs" "resp = []"
  | (pick) drv d1 drs1 route eta ds2 resp2 where "\<not> settled d"
      "assign_driver E d drs = Inr (drv, d1, drs1)"
      "suggest_route E (drv_lat drv, drv_lon drv) (dlv_lat d1, dlv_lon d1) = (route, eta)"
      "assign_loop E ds drs1 = (err, ds2, drs', resp2)"
      "ds' = d1\<lparr>eta_min := Some eta, route_coords := Some route\<rparr> # ds2"
      "resp = (dlv_id d1, driver drv, eta) # resp2"
proof (cases "settled d")
  case True
  obtain e2 ds2 drs2 resp2 where rec: "assign_loop E ds drs = (e2, ds2, drs2, resp2)"
    by (cases "assign_loop E ds drs") auto
  from assms show ?thesis
    unfolding assign_loop_settled[OF True] rec using True rec by (intro skip[of ds2]) simp_all
next
  case False
  show ?thesis
  proof (cases "assign_driver E d drs")
    case (Inl e)
    from assms show ?thesis
      unfolding assign_loop_unsettled[OF False] Inl using False Inl by (intro fail[of e]) simp_all
  next
    case (Inr r)
    obtain drv d1 drs1 where r: "r = (drv, d1, drs1)" by (cases r) auto
    obtain route eta where sr:
      "suggest_route E (drv_lat drv, drv_lon drv) (dlv_lat d1, dlv_lon d1) = (route, eta)"
      by (cases "suggest_route E (drv_lat drv, drv_lon drv) (dlv_lat d1, dlv_lon d1)") auto
    obtain e2 ds2 drs2 resp2 where rec: "assign_loop E ds drs1 = (e2, ds2, drs2, resp2)"
      by (cases "assign_loop E ds drs1") auto
    from assms show ?thesis
      unfolding assign_loop_unsettled[OF False] Inr r using False Inr r sr rec
      by (intro pick[of drv d1 drs1 route eta ds2 resp2]) (simp_all add: Let_def)
  qed
qed

lemma assign_loop_shape:
  "assign_loop E ds drs = (err, ds', drs', resp) \<Longrightarrow>
     length ds' = length ds \<and> map dlv_id ds' = map dlv_id ds
     \<and> map drv_id drs' = map drv_id drs \<and> length drs' = length drs"
proof (induction ds arbitrary: drs err ds' drs' resp)
  case Nil
  then show ?case by simp
next
  case (Cons d ds)
  from Cons.prems show ?case
  proof (cases rule: assign_loop_Cons_cases)
    case (skip ds2)
    with Cons.IH[OF skip(2)] show ?thesis by simp
  next
    case (fail e)
    then show ?thesis by simp
  next
    case (pick drv d1 drs1 route eta ds2 resp2)
    with Cons.IH[OF pick(4)] assign_driver_ids[OF pick(2)] show ?thesis by simp
  qed
qed

lemma assign_loop_settled_kept:
  "assign_loop E ds drs = (err, ds', drs', resp) \<Longrightarrow> i < length ds \<Longrightarrow> settled (ds ! i)
     \<Longrightarrow> ds' ! i = ds ! i"
proof (induction ds arbitrary: drs err ds' drs' resp i)
  case Nil
  then show ?case by simp
next
  case (Cons d ds)
  from Cons.prems(1) show ?case
  proof (cases rule: assign_loop_Cons_cases)
    case (skip ds2)
    show ?thesis
    proof (cases i)
      case 0
      then show ?thesis using skip by simp
    next
      case (Suc j)
      with Cons.prems have "j < length ds" "settled (ds ! j)" by simp_all
      from Cons.IH[OF skip(2) this] show ?thesis using skip Suc by simp
    qed
  next
    case (fail e)
    then show ?thesis by simp
  next
    case (pick drv d1 drs1 route eta ds2 resp2)
    show ?thesis
    proof (cases i)
      case 0
      then show ?thesis using pick Cons.prems by simp
    next
      case (Suc j)
      with Cons.prems have "j < length ds" "settled (ds ! j)" by simp_all
      from Cons.IH[OF pick(4) this] show ?thesis using pick Suc by simp
    qed
  qed
qed

lemma assign_loop_all_settled:
  "list_all settled ds \<Longrightarrow> assign_loop E ds drs = (None, ds, drs, [])"
proof (induction ds)
  case Nil
  then show ?case by simp
next
  case (Cons d ds)
  then have d: "settled d" and rest: "assign_loop E ds drs = (None, ds, drs, [])" by simp_all
  obtain err ds' drs' resp where r: "assign_loop E (d # ds) drs = (err, ds', drs', resp)"
    by (cases "assign_loop E (d # ds) drs") auto
  from r show ?case
  proof (cases rule: assign_loop_Cons_cases)
    case (skip ds2)
    with rest r show ?thesis by simp
  next
    case (fail e)
    with d show ?thesis by simp
  next
    case (pick drv d1 drs1 route eta ds2 resp2)
    with d show ?thesis by simp
  qed
qed

lemma assign_loop_idem:
  "assign_loop E ds drs = (err, ds', drs', resp) \<Longrightarrow> 0 \<notin> set (map drv_id drs)
     \<Longrightarrow> assign_loop E ds' drs' = (err, ds', drs', [])"
proof (induction ds arbitrary: drs err ds' drs' resp)
  case Nil
  then show ?case by simp
next
  case (Cons d ds)
  from Cons.prems(1) show ?case
  proof (cases rule: assign_loop_Cons_cases)
    case (skip ds2)
    from Cons.IH[OF skip(2) Cons.prems(2)] have "assign_loop E ds2 drs' = (err, ds2, drs', [])" .
    moreover have "truthy_int (assigned_driver d) \<or> geofenced d" using skip(1) by (simp add: settled_def)
    moreover obtain g where "check_geofence (dlv_lat d) (dlv_lon d) = Inr g"
      using check_geofence_Inr by blast
    ultimately show ?thesis using skip(3) by (auto simp: geofenced_def)
  next
    case (fail e)
    moreover obtain g where "check_geofence (dlv_lat d) (dlv_lon d) = Inr g"
      using check_geofence_Inr by blast
    ultimately show ?thesis by (auto simp: settled_def geofenced_def)
  next
    case (pick drv d1 drs1 route eta ds2 resp2)
    from assign_driver_ids[OF pick(2)] Cons.prems(2)
    have ids: "0 \<notin> set (map drv_id drs1)" and tr: "truthy_int (assigned_driver d1)"
      by auto
    from Cons.IH[OF pick(4) ids] have "assign_loop E ds2 drs' = (err, ds2, drs', [])" .
    then show ?thesis using pick(5) tr by simp
  qed
qed

section \<open>Identifiers and references are preserved\<close>

lemma driver_ids_nth:
  "driver_ids_ok drs \<Longrightarrow> i < length drs \<Longrightarrow> drv_id (drs ! i) = int i + 1"
proof -
  assume a: "driver_ids_ok drs" and i: "i < length drs"
  have "drv_id (drs ! i) = map drv_id drs ! i" using i by simp
  also have "\<dots> = map int [1..<Suc (length drs)] ! i" using a by (simp add: driver_ids_ok_def)
  also have "\<dots> = int i + 1" using i by (simp del: upt_Suc)
  finally show ?thesis .
qed

lemma delivery_ids_nth:
  "delivery_ids_ok dels \<Longrightarrow> i < length dels \<Longrightarrow> dlv_id (dels ! i) = int i + 1"
proof -
  assume a: "delivery_ids_ok dels" and i: "i < length dels"
  have "dlv_id (dels ! i) = map dlv_id dels ! i" using i by simp
  also have "\<dots> = map int [1..<Suc (length dels)] ! i" using a by (simp add: delivery_ids_ok_def)
  also have "\<dots> = int i + 1" using i by (simp del: upt_Suc)
  finally show ?thesis .
qed

lemma driver_ids_range:
  assumes "driver_ids_ok drs" "w \<in> set drs"
  shows "1 \<le> drv_id w \<and> drv_id w \<le> int (length drs)"
proof -
  from assms(2) obtain i where "i < length drs" "w = drs ! i" by (auto simp: in_set_conv_nth)
  with driver_ids_nth[OF assms(1)] show ?thesis by auto
qed

lemma driver_ids_find:
  assumes "driver_ids_ok drs" "1 \<le> k" "k \<le> int (length drs)"
  shows "\<exists>w\<in>set drs. drv_id w = k"
proof -
  let ?i = "nat (k - 1)"
  have i: "?i < length drs" using assms by auto
  then have "drv_id (drs ! ?i) = k" using driver_ids_nth[OF assms(1) i] assms(2) by simp
  with i show ?thesis by (auto intro!: bexI[of _ "drs ! ?i"])
qed

lemma ids_append:
  "map f xs = map int [1..<Suc (length xs)] \<Longrightarrow>
   map f new = map int [Suc (length xs)..<Suc (length xs + length new)] \<Longrightarrow>
   map f (xs @ new) = map int [1..<Suc (length (xs @ new))]"
proof -
  assume a: "map f xs = map int [1..<Suc (length xs)]"
    and b: "map f new = map int [Suc (length xs)..<Suc (length xs + length new)]"
  have "[1..<Suc (length xs) + length new] = [1..<Suc (length xs)] @ [Suc (length xs)..<Suc (length xs) + length new]"
    by (rule upt_add_eq_append) simp
  then show ?thesis using a b by (simp del: upt_Suc)
qed

lemma new_delivery_Inr:
  "new_delivery dels d = Inr r \<Longrightarrow> dlv_id r = int (length dels) + 1 \<and> assigned_driver r = None"
  by (auto simp: new_delivery_def split: option.splits)

lemma add_delivery_loop_spec:
  "add_delivery_loop items added dels = (res, dels') \<Longrightarrow>
     \<exists>new. dels' = dels @ new
       \<and> map dlv_id new = map int [Suc (length dels)..<Suc (length dels + length new)]
       \<and> list_all (\<lambda>d. assigned_driver d = None) new
       \<and> (\<forall>a. res = Inr a \<longrightarrow> a = added @ new \<and> length new = length items)"
proof (induction items arbitrary: added dels)
  case Nil
  then show ?case by auto
next
  case (Cons d rest)
  show ?case
  proof (cases "new_delivery dels d")
    case (Inl e)
    with Cons.prems show ?thesis by auto
  next
    case (Inr r)
    with Cons.prems have "add_delivery_loop rest (added @ [r]) (dels @ [r]) = (res, dels')" by simp
    from Cons.IH[OF this] obtain new where new: "dels' = (dels @ [r]) @ new"
      "map dlv_id new = map int [Suc (length (dels @ [r]))..<Suc (length (dels @ [r]) + length new)]"
      "list_all (\<lambda>d. assigned_driver d = None) new"
      "\<forall>a. res = Inr a \<longrightarrow> a = (added @ [r]) @ new \<and> length new = length rest" by blast
    from new_delivery_Inr[OF Inr] have r: "dlv_id r = int (length dels) + 1" "assigned_driver r = None"
      by simp_all
    have "[Suc (length dels)..<Suc (length dels + length (r # new))]
          = Suc (length dels) # [Suc (Suc (length dels))..<Suc (Suc (length dels) + length new)]"
      by (simp add: upt_conv_Cons del: upt_Suc)
    then have "map dlv_id (r # new) = map int [Suc (length dels)..<Suc (length dels + length (r # new))]"
      using new(2) r(1) by (simp del: upt_Suc)
    then show ?thesis using new r
      by (intro exI[of _ "r # new"]) (simp del: upt_Suc)
  qed
qed

lemma new_driver_Inr:
  "new_driver drs d = Inr r \<Longrightarrow> drv_id r = int (length drs) + 1"
  by (auto simp: new_driver_def split: option.splits)

lemma add_driver_loop_spec:
  "add_driver_loop items added drs = (res, drs') \<Longrightarrow>
     \<exists>new. drs' = drs @ new
       \<and> map drv_id new = map int [Suc (length drs)..<Suc (length drs + length new)]"
proof (induction items arbitrary: added drs)
  case Nil
  then show ?case by auto
next
  case (Cons d rest)
  show ?case
  proof (cases "new_driver drs d")
    case (Inl e)
    with Cons.prems show ?thesis by auto
  next
    case (Inr r)
    with Cons.prems have "add_driver_loop rest (added @ [r]) (drs @ [r]) = (res, drs')" by simp
    from Cons.IH[OF this] obtain new where new: "drs' = (drs @ [r]) @ new"
      "map drv_id new = map int [Suc (length (drs @ [r]))..<Suc (length (drs @ [r]) + length new)]"
      by blast
    from new_driver_Inr[OF Inr] have r: "drv_id r = int (length drs) + 1" by simp
    have "[Suc (length drs)..<Suc (length drs + length (r # new))]
          = Suc (length drs) # [Suc (Suc (length drs))..<Suc (Suc (length drs) + length new)]"
      by (simp add: upt_conv_Cons del: upt_Suc)
    then have "map drv_id (r # new) = map int [Suc (length drs)..<Suc (length drs + length (r # new))]"
      using new(2) r by (simp del: upt_Suc)
    then show ?thesis using new r
      by (intro exI[of _ "r # new"]) (simp del: upt_Suc)
  qed
qed

lemma add_delivery_spec:
  assumes "add_delivery req s = (res, s')"
  shows "drivers s' = drivers s \<and>
     (\<exists>new. deliveries s' = deliveries s @ new
       \<and> map dlv_id new = map int [Suc (length (deliveries s))..<Suc (length (deliveries s) + length new)]
       \<and> list_all (\<lambda>d. assigned_driver d = None) new
       \<and> (\<forall>a. res = Inr a \<longrightarrow> a = new \<and> length new = (case req of Single d \<Rightarrow> 1 | Batch items \<Rightarrow> length items)))"
proof (cases req)
  case (Single d)
  show ?thesis
  proof (cases "new_delivery (deliveries s) d")
    case (Inl e)
    with assms Single have "s' = s" "res = Inl e" by auto
    then show ?thesis by (intro conjI exI[of _ "[]"]) simp_all
  next
    case (Inr r)
    with assms Single have "s' = s\<lparr>deliveries := deliveries s @ [r]\<rparr>" "res = Inr [r]" by auto
    with new_delivery_Inr[OF Inr] Single show ?thesis
      by (intro conjI exI[of _ "[r]"]) (simp_all del: upt_Suc add: upt_conv_Cons)
  qed
next
  case (Batch items)
  obtain r dels' where l: "add_delivery_loop items [] (deliveries s) = (r, dels')"
    by (cases "add_delivery_loop items [] (deliveries s)") auto
  with assms Batch have s': "s' = s\<lparr>deliveries := dels'\<rparr>" "res = r" by auto
  from add_delivery_loop_spec[OF l] obtain new where new: "dels' = deliveries s @ new"
    "map dlv_id new = map int [Suc (length (deliveries s))..<Suc (length (deliveries s) + length new)]"
    "list_all (\<lambda>d. assigned_driver d = None) new"
    "\<forall>a. r = Inr a \<longrightarrow> a = [] @ new \<and> length new = length items" by blast
  show ?thesis using s' new Batch
    by (intro conjI exI[of _ new]) (auto simp del: upt_Suc)
qed

lemma add_driver_spec:
  assumes "add_driver req s = (res, s')"
  shows "deliveries s' = deliveries s \<and>
     (\<exists>new. drivers s' = drivers s @ new
       \<and> map drv_id new = map int [Suc (length (drivers s))..<Suc (length (drivers s) + length new)])"
proof (cases req)
  case (Single d)
  show ?thesis
  proof (cases "new_driver (drivers s) d")
    case (Inl e)
    with assms Single have "s' = s" by auto
    then show ?thesis by (intro conjI exI[of _ "[]"]) simp_all
  next
    case (Inr r)
    with assms Single have "s' = s\<lparr>drivers := drivers s @ [r]\<rparr>" by auto
    with new_driver_Inr[OF Inr] show ?thesis
      by (intro conjI exI[of _ "[r]"]) (simp_all del: upt_Suc add: upt_conv_Cons)
  qed
next
  case (Batch items)
  obtain r drs' where l: "add_driver_loop items [] (drivers s) = (r, drs')"
    by (cases "add_driver_loop items [] (drivers s)") auto
  with assms Batch have s': "s' = s\<lparr>drivers := drs'\<rparr>" by auto
  from add_driver_loop_spec[OF l] obtain new where new: "drs' = drivers s @ new"
    "map drv_id new = map int [Suc (length (drivers s))..<Suc (length (drivers s) + length new)]"
    by blast
  show ?thesis using s' new
    by (intro conjI exI[of _ new]) (simp_all del: upt_Suc)
qed

lemma driver_ids_ok_cong:
  assumes "map drv_id a = map drv_id b" "driver_ids_ok b"
  shows "driver_ids_ok a"
proof -
  from assms(1) have "length a = length b" by (rule map_eq_imp_length_eq)
  with assms show ?thesis unfolding driver_ids_ok_def by (simp only:)
qed

lemma delivery_ids_ok_cong:
  assumes "map dlv_id a = map dlv_id b" "delivery_ids_ok b"
  shows "delivery_ids_ok a"
proof -
  from assms(1) have "length a = length b" by (rule map_eq_imp_length_eq)
  with assms show ?thesis unfolding delivery_ids_ok_def by (simp only:)
qed

lemma refs_ok_mono:
  "refs_ok drs dels \<Longrightarrow> length drs \<le> length drs' \<Longrightarrow> refs_ok drs' dels"
  by (auto simp: refs_ok_def list_all_iff split: option.splits)

lemma refs_ok_append_new:
  "refs_ok drs dels \<Longrightarrow> list_all (\<lambda>d. assigned_driver d = None) new \<Longrightarrow> refs_ok drs (dels @ new)"
  by (auto simp: refs_ok_def list_all_iff split: option.splits)

lemma refs_ok_Cons:
  "refs_ok drs (d # ds) =
     ((case assigned_driver d of None \<Rightarrow> True | Some k \<Rightarrow> 1 \<le> k \<and> k \<le> int (length drs))
      \<and> refs_ok drs ds)"
  by (simp add: refs_ok_def)

lemma refs_ok_length:
  "length drs' = length drs \<Longrightarrow> refs_ok drs' ds = refs_ok drs ds"
  by (simp add: refs_ok_def cong: option.case_cong)

lemma assign_loop_refs:
  "assign_loop E ds drs = (err, ds', drs', resp) \<Longrightarrow> driver_ids_ok drs \<Longrightarrow> refs_ok drs ds
     \<Longrightarrow> refs_ok drs' ds'"
proof (induction ds arbitrary: drs err ds' drs' resp)
  case Nil
  then show ?case by (simp add: refs_ok_def)
next
  case (Cons d ds)
  from Cons.prems(3) have rest: "refs_ok drs ds" by (simp add: refs_ok_Cons)
  from assign_loop_shape[OF Cons.prems(1)] have len: "length drs' = length drs" by simp
  from Cons.prems(1) show ?case
  proof (cases rule: assign_loop_Cons_cases)
    case (skip ds2)
    from Cons.IH[OF skip(2) Cons.prems(2) rest] have "refs_ok drs ds2"
      by (simp add: refs_ok_length[OF len])
    with Cons.prems(3) show ?thesis
      unfolding skip(3) refs_ok_length[OF len] by (simp add: refs_ok_Cons)
  next
    case (fail e)
    show ?thesis unfolding fail(4) fail(5) by (rule Cons.prems(3))
  next
    case (pick drv d1 drs1 route eta ds2 resp2)
    from assign_driver_ids[OF pick(2)] have ids1: "map drv_id drs1 = map drv_id drs"
      and len1: "length drs1 = length drs"
      and w: "\<exists>w\<in>set drs. assigned_driver d1 = Some (drv_id w) \<and> drv_id drv = drv_id w"
      by blast+
    have ok1: "driver_ids_ok drs1" using ids1 Cons.prems(2) by (rule driver_ids_ok_cong)
    have rest1: "refs_ok drs1 ds" using rest by (simp add: refs_ok_length[OF len1])
    from w obtain w0 where w0: "w0 \<in> set drs" "assigned_driver d1 = Some (drv_id w0)" by blast
    from driver_ids_range[OF Cons.prems(2) w0(1)]
    have rng: "1 \<le> drv_id w0 \<and> drv_id w0 \<le> int (length drs)" .
    from Cons.IH[OF pick(4) ok1 rest1] have "refs_ok drs ds2"
      by (simp add: refs_ok_length[OF len])
    with rng w0(2) show ?thesis
      unfolding pick(5) refs_ok_length[OF len] by (simp add: refs_ok_Cons)
  qed
qed

lemma store_inv_init: "store_inv init_store"
  by (simp add: store_inv_def init_store_def init_drivers_def driver_ids_ok_def delivery_ids_ok_def
      refs_ok_def)

lemma store_inv_add_delivery:
  assumes "store_inv s" shows "store_inv (snd (add_delivery req s))"
proof -
  obtain res s' where r: "add_delivery req s = (res, s')" by (cases "add_delivery req s") auto
  from add_delivery_spec[OF r] obtain new where n: "drivers s' = drivers s"
    "deliveries s' = deliveries s @ new"
    "map dlv_id new = map int [Suc (length (deliveries s))..<Suc (length (deliveries s) + length new)]"
    "list_all (\<lambda>d. assigned_driver d = None) new" by blast
  have a: "drivers s \<noteq> []" "driver_ids_ok (drivers s)" "delivery_ids_ok (deliveries s)"
    "refs_ok (drivers s) (deliveries s)" using assms by (simp_all add: store_inv_def)
  have "delivery_ids_ok (deliveries s @ new)"
    unfolding delivery_ids_ok_def by (rule ids_append[OF a(3)[unfolded delivery_ids_ok_def] n(3)])
  moreover have "refs_ok (drivers s) (deliveries s @ new)"
    by (rule refs_ok_append_new[OF a(4) n(4)])
  ultimately have "store_inv s'" unfolding store_inv_def n(1) n(2) using a(1) a(2) by blast
  then show ?thesis by (simp add: r)
qed

lemma store_inv_add_driver:
  assumes "store_inv s" shows "store_inv (snd (add_driver req s))"
proof -
  obtain res s' where r: "add_driver req s = (res, s')" by (cases "add_driver req s") auto
  from add_driver_spec[OF r] obtain new where n: "deliveries s' = deliveries s"
    "drivers s' = drivers s @ new"
    "map drv_id new = map int [Suc (length (drivers s))..<Suc (length (drivers s) + length new)]"
    by blast
  have a: "drivers s \<noteq> []" "driver_ids_ok (drivers s)" "delivery_ids_ok (deliveries s)"
    "refs_ok (drivers s) (deliveries s)" using assms by (simp_all add: store_inv_def)
  have "driver_ids_ok (drivers s @ new)"
    unfolding driver_ids_ok_def by (rule ids_append[OF a(2)[unfolded driver_ids_ok_def] n(3)])
  moreover have "refs_ok (drivers s @ new) (deliveries s)"
    by (rule refs_ok_mono[OF a(4)]) simp
  moreover have "drivers s @ new \<noteq> []" using a(1) by simp
  ultimately have "store_inv s'" unfolding store_inv_def n(1) n(2) using a(3) by blast
  then show ?thesis by (simp add: r)
qed

lemma store_inv_assign_all:
  assumes "store_inv s" shows "store_inv (snd (assign_all E s))"
proof -
  obtain err ds' drs' resp where l: "assign_loop E (deliveries s) (drivers s) = (err, ds', drs', resp)"
    by (cases "assign_loop E (deliveries s) (drivers s)") auto
  from assign_loop_shape[OF l] have sh: "map dlv_id ds' = map dlv_id (deliveries s)"
    "map drv_id drs' = map drv_id (drivers s)" "length drs' = length (drivers s)" by simp_all
  from assms have "drs' \<noteq> []" using sh(3) by (auto simp: store_inv_def)
  moreover have "driver_ids_ok drs'" using sh(2) assms by (auto simp: store_inv_def intro: driver_ids_ok_cong)
  moreover have "delivery_ids_ok ds'" using sh(1) assms by (auto simp: store_inv_def intro: delivery_ids_ok_cong)
  moreover from assign_loop_refs[OF l] assms have "refs_ok drs' ds'" by (simp add: store_inv_def)
  ultimately show ?thesis by (simp add: assign_all_def l store_inv_def)
qed

lemma reachable_inv: "reachable E s \<Longrightarrow> store_inv s"
  by (induction rule: reachable.induct)
     (simp_all add: store_inv_init store_inv_add_delivery store_inv_add_driver store_inv_assign_all)

section \<open>Jobs the loop passes over\<close>

lemma inside_geofenced:
  assumes "\<exists>gf\<in>set geofences. contains (polygon gf) (dlv_lat d, dlv_lon d)"
  shows "geofenced d"
proof -
  from assms
  have "contains [(14.555, 121.023), (14.556, 121.023), (14.556, 121.025), (14.555, 121.025)]
          (dlv_lat d, dlv_lon d)"
    by (simp add: geofences_def)
  then show ?thesis unfolding geofenced_iff nogo_contains .
qed

text \<open>
  From here on an iteration is unfolded through \<open>assign_loop_settled\<close> and
  \<open>assign_loop_unsettled\<close> only.
\<close>

declare assign_loop.simps(2) [simp del]

lemma reachable_assigned_truthy:
  assumes "reachable E s" "d \<in> set (deliveries s)" "assigned_driver d \<noteq> None"
  shows "truthy_int (assigned_driver d)"
proof -
  from reachable_inv[OF assms(1)] have "refs_ok (drivers s) (deliveries s)"
    by (simp add: store_inv_def)
  with assms(2) have "case assigned_driver d of None \<Rightarrow> True
      | Some k \<Rightarrow> 1 \<le> k \<and> k \<le> int (length (drivers s))"
    by (simp add: refs_ok_def list_all_iff)
  with assms(3) show ?thesis by (cases "assigned_driver d") auto
qed

lemma reachable_no_zero_id:
  assumes "reachable E s" shows "0 \<notin> set (map drv_id (drivers s))"
proof
  assume "0 \<in> set (map drv_id (drivers s))"
  then obtain w where w: "w \<in> set (drivers s)" "drv_id w = 0" by auto
  from reachable_inv[OF assms] have "driver_ids_ok (drivers s)" by (simp add: store_inv_def)
  from driver_ids_range[OF this w(1)] w(2) show False by simp
qed

lemma assign_loop_drop_settled:
  assumes "settled d"
  shows "fst (assign_loop E (pre @ d # post) drs) = fst (assign_loop E (pre @ post) drs)
       \<and> fst (snd (snd (assign_loop E (pre @ d # post) drs)))
         = fst (snd (snd (assign_loop E (pre @ post) drs)))"
proof (induction pre arbitrary: drs)
  case Nil
  show ?case by (simp add: assign_loop_settled[OF assms] split: prod.splits)
next
  case (Cons p pre)
  show ?case
  proof (cases "settled p")
    case True
    from Cons.IH[of drs] show ?thesis
      by (auto simp add: assign_loop_settled[OF True] split: prod.splits)
  next
    case False
    show ?thesis
    proof (cases "assign_driver E p drs")
      case (Inl e)
      then show ?thesis by (simp add: assign_loop_unsettled[OF False])
    next
      case (Inr r)
      obtain drv d1 drs1 where r: "r = (drv, d1, drs1)" by (cases r) auto
      from Cons.IH[of drs1] show ?thesis
        by (auto simp add: assign_loop_unsettled[OF False] Inr r Let_def split: prod.splits)
    qed
  qed
qed

lemma assign_loop_done:
  "assign_loop E ds drs = (None, ds', drs', resp) \<Longrightarrow> 0 \<notin> set (map drv_id drs)
     \<Longrightarrow> list_all settled ds'"
proof (induction ds arbitrary: drs ds' drs' resp)
  case Nil
  then show ?case by simp
next
  case (Cons d ds)
  from Cons.prems(1) show ?case
  proof (cases rule: assign_loop_Cons_cases)
    case (skip ds2)
    from Cons.IH[OF skip(2) Cons.prems(2)] skip(1) skip(3) show ?thesis by simp
  next
    case (fail e)
    then show ?thesis by simp
  next
    case (pick drv d1 drs1 route eta ds2 resp2)
    from assign_driver_ids[OF pick(2)] Cons.prems(2)
    have ids: "0 \<notin> set (map drv_id drs1)" and tr: "truthy_int (assigned_driver d1)"
      by auto
    from Cons.IH[OF pick(4) ids] tr pick(5) show ?thesis by (simp add: settled_def)
  qed
qed

lemma assign_all_parts:
  "assign_loop E (deliveries s) (drivers s) = (err, ds', drs', resp) \<Longrightarrow>
   deliveries (snd (assign_all E s)) = ds' \<and> drivers (snd (assign_all E s)) = drs'
   \<and> fst (assign_all E s) = (case err of None \<Rightarrow> Inr resp | Some e \<Rightarrow> Inl e)"
  by (simp add: assign_all_def)

section \<open>Intake identifiers\<close>

text \<open>
  C9. Every delivery that intake creates gets as identifier the number of deliveries in the
  store once it is inserted; so in every store the service can reach the identifiers are
  1, 2, ..., n in order, all distinct.
\<close>

theorem delivery_ids_consecutive:
  assumes "reachable E s" and "add_delivery req s = (res, s')"
  shows "map dlv_id (deliveries s') = map int [1..<Suc (length (deliveries s'))]
       \<and> distinct (map dlv_id (deliveries s'))
       \<and> (\<exists>new. deliveries s' = deliveries s @ new
             \<and> (\<forall>i<length new. dlv_id (new ! i) = int (length (deliveries s) + i) + 1)
             \<and> (\<forall>a. res = Inr a \<longrightarrow>
                   a = new \<and> length new = (case req of Single d \<Rightarrow> 1 | Batch items \<Rightarrow> length items)))"
proof -
  have "reachable E (snd (add_delivery req s))" by (rule reachable.request[OF assms(1)])
  then have "reachable E s'" by (simp add: assms(2))
  from reachable_inv[OF this] have ids: "map dlv_id (deliveries s') = map int [1..<Suc (length (deliveries s'))]"
    by (simp add: store_inv_def delivery_ids_ok_def)
  have "distinct (map int [1..<Suc (length (deliveries s'))])"
    by (simp add: distinct_map inj_on_def del: upt_Suc)
  then have dist: "distinct (map dlv_id (deliveries s'))" by (simp only: ids)
  from add_delivery_spec[OF assms(2)] obtain new where new: "deliveries s' = deliveries s @ new"
    "map dlv_id new = map int [Suc (length (deliveries s))..<Suc (length (deliveries s) + length new)]"
    "\<forall>a. res = Inr a \<longrightarrow>
          a = new \<and> length new = (case req of Single d \<Rightarrow> 1 | Batch items \<Rightarrow> length items)"
    by blast
  have "\<forall>i<length new. dlv_id (new ! i) = int (length (deliveries s) + i) + 1"
  proof (intro allI impI)
    fix i assume i: "i < length new"
    then have "dlv_id (new ! i) = map dlv_id new ! i" by simp
    also have "\<dots> = int (length (deliveries s) + i) + 1"
      using i by (simp only: new(2)) (simp del: upt_Suc)
    finally show "dlv_id (new ! i) = int (length (deliveries s) + i) + 1" .
  qed
  with ids dist new(1) new(3) show ?thesis by blast
qed

lemma add_delivery_outside_init:
  "add_delivery (Single job_outside) init_store =
    (Inr [\<lparr>dlv_id = 1, dlv_lat = 14.56, dlv_lon = 121.02, address = ''Ayala Avenue'',
           assigned_driver = None, eta_min = None, route_coords = None\<rparr>],
     \<lparr>drivers = init_drivers,
      deliveries = [\<lparr>dlv_id = 1, dlv_lat = 14.56, dlv_lon = 121.02, address = ''Ayala Avenue'',
           assigned_driver = None, eta_min = None, route_coords = None\<rparr>]\<rparr>)"
  by (simp add: job_outside_def init_store_def new_delivery_def)

theorem delivery_ids_consecutive_witness:
  "reachable (two_node_env 800) init_store
   \<and> map dlv_id (deliveries (snd (add_delivery (Single job_outside) init_store))) = [1]
   \<and> distinct (map dlv_id (deliveries (snd (add_delivery (Single job_outside) init_store))))
   \<and> length (deliveries (snd (add_delivery (Single job_outside) init_store))) = 1"
  using delivery_ids_consecutive[OF reachable.seeded[of "two_node_env 800"],
          of "Single job_outside" "fst (add_delivery (Single job_outside) init_store)"
             "snd (add_delivery (Single job_outside) init_store)"]
  unfolding add_delivery_outside_init
  by (simp add: reachable.seeded)

section \<open>Assignment: existing drivers, geofenced jobs, repeated calls\<close>

lemma assign_all_without:
  assumes "i < length (deliveries s)" "settled (deliveries s ! i)"
  shows "drivers (snd (assign_all E s))
       = drivers (snd (assign_all E
           (s\<lparr>deliveries := take i (deliveries s) @ drop (Suc i) (deliveries s)\<rparr>)))"
proof -
  let ?pre = "take i (deliveries s)" and ?post = "drop (Suc i) (deliveries s)"
  have split: "deliveries s = ?pre @ deliveries s ! i # ?post"
    by (rule id_take_nth_drop[OF assms(1)])
  have "fst (snd (snd (assign_loop E (?pre @ deliveries s ! i # ?post) (drivers s))))
      = fst (snd (snd (assign_loop E (?pre @ ?post) (drivers s))))"
    using assign_loop_drop_settled[OF assms(2)] by blast
  then have "fst (snd (snd (assign_loop E (deliveries s) (drivers s))))
      = fst (snd (snd (assign_loop E (?pre @ ?post) (drivers s))))"
    using split by simp
  then show ?thesis by (auto simp add: assign_all_def split: prod.splits)
qed

lemma assign_all_kept:
  assumes "i < length (deliveries s)" "settled (deliveries s ! i)"
  shows "deliveries (snd (assign_all E s)) ! i = deliveries s ! i"
proof -
  obtain err ds' drs' resp where l: "assign_loop E (deliveries s) (drivers s) = (err, ds', drs', resp)"
    by (cases "assign_loop E (deliveries s) (drivers s)") auto
  from assign_loop_settled_kept[OF l assms] assign_all_parts[OF l] show ?thesis by simp
qed

lemma assign_all_all_settled:
  assumes "list_all settled (deliveries s)"
  shows "assign_all E s = (Inr [], s)"
  by (simp add: assign_all_def assign_loop_all_settled[OF assms])

lemma assign_loop_failed:
  "assign_loop E ds drs = (Some e, ds', drs', resp) \<Longrightarrow> \<exists>d\<in>set ds'. \<not> settled d"
proof (induction ds arbitrary: drs ds' drs' resp)
  case Nil
  then show ?case by simp
next
  case (Cons d ds)
  from Cons.prems show ?case
  proof (cases rule: assign_loop_Cons_cases)
    case (skip ds2)
    from Cons.IH[OF skip(2)] skip(3) show ?thesis by auto
  next
    case (fail e')
    then show ?thesis by simp
  next
    case (pick drv d1 drs1 route eta ds2 resp2)
    from Cons.IH[OF pick(4)] pick(5) show ?thesis by auto
  qed
qed

text \<open>
  C2 (amended). After any call of the assignment endpoint in a store the service can
  reach, every delivery is either unassigned or carries the id of a driver in the driver
  list, and the driver list is not empty. When the call returns, an unassigned delivery is
  one inside a geofence. When the call ends in an exception (the distance function raised
  for a pending job), a delivery is left that is unassigned and outside every geofence.
\<close>

theorem assigned_driver_exists:
  assumes "reachable E s"
  shows "(\<forall>j\<in>set (deliveries (snd (assign_all E s))).
            assigned_driver j = None
            \<or> (\<exists>w\<in>set (drivers (snd (assign_all E s))). assigned_driver j = Some (drv_id w)))
       \<and> drivers (snd (assign_all E s)) \<noteq> []
       \<and> (\<forall>resp. fst (assign_all E s) = Inr resp \<longrightarrow>
            (\<forall>j\<in>set (deliveries (snd (assign_all E s))). assigned_driver j = None \<longrightarrow> geofenced j))
       \<and> (\<forall>e. fst (assign_all E s) = Inl e \<longrightarrow>
            (\<exists>j\<in>set (deliveries (snd (assign_all E s))). assigned_driver j = None \<and> \<not> geofenced j))"
proof (intro conjI ballI allI impI)
  let ?s' = "snd (assign_all E s)"
  have inv: "store_inv ?s'" by (rule reachable_inv[OF reachable.assign[OF assms]])
  fix j assume j: "j \<in> set (deliveries ?s')"
  show "assigned_driver j = None
        \<or> (\<exists>w\<in>set (drivers ?s'). assigned_driver j = Some (drv_id w))"
  proof (cases "assigned_driver j")
    case None
    then show ?thesis by simp
  next
    case (Some k)
    from inv j have "case assigned_driver j of None \<Rightarrow> True
        | Some k \<Rightarrow> 1 \<le> k \<and> k \<le> int (length (drivers ?s'))"
      by (simp add: store_inv_def refs_ok_def list_all_iff)
    with Some have k: "1 \<le> k" "k \<le> int (length (drivers ?s'))" by simp_all
    from inv have "driver_ids_ok (drivers ?s')" by (simp add: store_inv_def)
    from driver_ids_find[OF this k] Some show ?thesis by auto
  qed
next
  have "store_inv (snd (assign_all E s))" by (rule reachable_inv[OF reachable.assign[OF assms]])
  then show "drivers (snd (assign_all E s)) \<noteq> []" by (simp add: store_inv_def)
next
  let ?s' = "snd (assign_all E s)"
  fix resp j
  assume ok: "fst (assign_all E s) = Inr resp" and j: "j \<in> set (deliveries ?s')"
    and un: "assigned_driver j = None"
  obtain err ds' drs' r where l: "assign_loop E (deliveries s) (drivers s) = (err, ds', drs', r)"
    by (cases "assign_loop E (deliveries s) (drivers s)") auto
  from assign_all_parts[OF l] ok have "err = None" by (cases err) simp_all
  with l have "assign_loop E (deliveries s) (drivers s) = (None, ds', drs', r)" by simp
  from assign_loop_done[OF this reachable_no_zero_id[OF assms]] have "list_all settled ds'" .
  with j assign_all_parts[OF l] have "settled j" by (simp add: list_all_iff)
  with un show "geofenced j" by (simp add: settled_def)
next
  let ?s' = "snd (assign_all E s)"
  fix e assume bad: "fst (assign_all E s) = Inl e"
  obtain err ds' drs' r where l: "assign_loop E (deliveries s) (drivers s) = (err, ds', drs', r)"
    by (cases "assign_loop E (deliveries s) (drivers s)") auto
  from assign_all_parts[OF l] bad have "err = Some e" by (cases err) simp_all
  with l have "assign_loop E (deliveries s) (drivers s) = (Some e, ds', drs', r)" by simp
  from assign_loop_failed[OF this] obtain d where d: "d \<in> set ds'" "\<not> settled d" by blast
  from d(1) assign_all_parts[OF l] have mem: "d \<in> set (deliveries ?s')" by simp
  have "assigned_driver d = None"
  proof (rule ccontr)
    assume "assigned_driver d \<noteq> None"
    from reachable_assigned_truthy[OF reachable.assign[OF assms] mem this] d(2)
    show False by (simp add: settled_def)
  qed
  with d(2) mem show "\<exists>j\<in>set (deliveries ?s'). assigned_driver j = None \<and> \<not> geofenced j"
    by (auto simp add: settled_def)
qed

text \<open>
  C3 (amended). A pending job inside a geofence polygon is left as it is by the assignment
  endpoint, and the driver list after the call is the one the call produces without that
  job in the store; when no other job is pending the whole store is unchanged.
\<close>

theorem geofenced_job_untouched:
  assumes "i < length (deliveries s)"
    and "assigned_driver (deliveries s ! i) = None"
    and "\<exists>gf\<in>set geofences.
           contains (polygon gf) (dlv_lat (deliveries s ! i), dlv_lon (deliveries s ! i))"
  shows "deliveries (snd (assign_all E s)) ! i = deliveries s ! i
       \<and> assigned_driver (deliveries (snd (assign_all E s)) ! i) = None
       \<and> drivers (snd (assign_all E s))
         = drivers (snd (assign_all E
             (s\<lparr>deliveries := take i (deliveries s) @ drop (Suc i) (deliveries s)\<rparr>)))
       \<and> ((\<forall>j<length (deliveries s). j \<noteq> i \<longrightarrow> settled (deliveries s ! j))
            \<longrightarrow> assign_all E s = (Inr [], s))"
proof -
  have st: "settled (deliveries s ! i)"
    using inside_geofenced[OF assms(3)] by (simp add: settled_def)
  have kept: "deliveries (snd (assign_all E s)) ! i = deliveries s ! i"
    by (rule assign_all_kept[OF assms(1) st])
  have "(\<forall>j<length (deliveries s). j \<noteq> i \<longrightarrow> settled (deliveries s ! j))
            \<longrightarrow> assign_all E s = (Inr [], s)"
  proof
    assume "\<forall>j<length (deliveries s). j \<noteq> i \<longrightarrow> settled (deliveries s ! j)"
    with st have "\<forall>j<length (deliveries s). settled (deliveries s ! j)" by metis
    then have "list_all settled (deliveries s)" by (simp add: list_all_length)
    then show "assign_all E s = (Inr [], s)" by (rule assign_all_all_settled)
  qed
  with kept assms(2) assign_all_without[OF assms(1) st] show ?thesis by simp
qed

text \<open>
  C4. In a store the service can reach, the assignment endpoint leaves every job that is
  already assigned as it is, and the driver list after the call is the one the call
  produces without that job; a store in which every job is assigned is left unchanged; and
  a second call in a row leaves the store as the first call left it.
\<close>

theorem assign_all_idempotent:
  assumes "reachable E s"
  shows "(\<forall>i<length (deliveries s). assigned_driver (deliveries s ! i) \<noteq> None \<longrightarrow>
            deliveries (snd (assign_all E s)) ! i = deliveries s ! i
            \<and> drivers (snd (assign_all E s))
              = drivers (snd (assign_all E
                  (s\<lparr>deliveries := take i (deliveries s) @ drop (Suc i) (deliveries s)\<rparr>))))
       \<and> ((\<forall>i<length (deliveries s). assigned_driver (deliveries s ! i) \<noteq> None)
            \<longrightarrow> assign_all E s = (Inr [], s))
       \<and> snd (assign_all E (snd (assign_all E s))) = snd (assign_all E s)"
proof (intro conjI allI impI)
  fix i assume i: "i < length (deliveries s)" and a: "assigned_driver (deliveries s ! i) \<noteq> None"
  from i have "deliveries s ! i \<in> set (deliveries s)" by simp
  from reachable_assigned_truthy[OF assms this a] have st: "settled (deliveries s ! i)"
    by (simp add: settled_def)
  show "deliveries (snd (assign_all E s)) ! i = deliveries s ! i"
    by (rule assign_all_kept[OF i st])
  show "drivers (snd (assign_all E s))
      = drivers (snd (assign_all E
          (s\<lparr>deliveries := take i (deliveries s) @ drop (Suc i) (deliveries s)\<rparr>)))"
    by (rule assign_all_without[OF i st])
next
  assume all: "\<forall>i<length (deliveries s). assigned_driver (deliveries s ! i) \<noteq> None"
  have "\<forall>i<length (deliveries s). settled (deliveries s ! i)"
  proof (intro allI impI)
    fix i assume i: "i < length (deliveries s)"
    then have "deliveries s ! i \<in> set (deliveries s)" by simp
    from reachable_assigned_truthy[OF assms this] all i show "settled (deliveries s ! i)"
      by (simp add: settled_def)
  qed
  then have "list_all settled (deliveries s)" by (simp add: list_all_length)
  then show "assign_all E s = (Inr [], s)" by (rule assign_all_all_settled)
next
  obtain err ds' drs' resp where l: "assign_loop E (deliveries s) (drivers s) = (err, ds', drs', resp)"
    by (cases "assign_loop E (deliveries s) (drivers s)") auto
  from assign_loop_idem[OF l reachable_no_zero_id[OF assms]]
  have again: "assign_loop E ds' drs' = (err, ds', drs', [])" .
  have s': "snd (assign_all E s) = s\<lparr>drivers := drs', deliveries := ds'\<rparr>"
    by (simp add: assign_all_def l)
  show "snd (assign_all E (snd (assign_all E s))) = snd (assign_all E s)"
    unfolding s' by (simp add: assign_all_def again)
qed

subsection \<open>The loop on the example stores\<close>

lemma store_outside_eq:
  "store_outside =
     \<lparr>drivers = init_drivers,
      deliveries = [\<lparr>dlv_id = 1, dlv_lat = 14.56, dlv_lon = 121.02, address = ''Ayala Avenue'',
           assigned_driver = None, eta_min = None, route_coords = None\<rparr>]\<rparr>"
  by (simp add: store_outside_def job_outside_def init_store_def new_delivery_def)

lemma store_in_zone_eq:
  "store_in_zone =
     \<lparr>drivers = init_drivers,
      deliveries = [\<lparr>dlv_id = 1, dlv_lat = 14.5555, dlv_lon = 121.024, address = ''Unknown'',
           assigned_driver = None, eta_min = None, route_coords = None\<rparr>]\<rparr>"
  by (simp add: store_in_zone_def job_in_zone_def init_store_def new_delivery_def)

lemma store_both_eq:
  "store_both =
     \<lparr>drivers = init_drivers,
      deliveries = [\<lparr>dlv_id = 1, dlv_lat = 14.5555, dlv_lon = 121.024, address = ''Unknown'',
           assigned_driver = None, eta_min = None, route_coords = None\<rparr>,
         \<lparr>dlv_id = 2, dlv_lat = 14.56, dlv_lon = 121.02, address = ''Ayala Avenue'',
           assigned_driver = None, eta_min = None, route_coords = None\<rparr>]\<rparr>"
  by (simp add: store_both_def job_in_zone_def job_outside_def init_store_def new_delivery_def)

lemma store_near_bob_eq:
  "store_near_bob =
     \<lparr>drivers = init_drivers,
      deliveries = [\<lparr>dlv_id = 1, dlv_lat = 14.555, dlv_lon = 121.03, address = ''Unknown'',
           assigned_driver = None, eta_min = None, route_coords = None\<rparr>]\<rparr>"
  by (simp add: store_near_bob_def job_near_bob_def init_store_def new_delivery_def)

lemma store_lat_95_eq:
  "store_lat_95 =
     \<lparr>drivers = init_drivers,
      deliveries = [\<lparr>dlv_id = 1, dlv_lat = 95, dlv_lon = 121.02, address = ''Unknown'',
           assigned_driver = None, eta_min = None, route_coords = None\<rparr>,
         \<lparr>dlv_id = 2, dlv_lat = 14.56, dlv_lon = 121.02, address = ''Ayala Avenue'',
           assigned_driver = None, eta_min = None, route_coords = None\<rparr>]\<rparr>"
  by (simp add: store_lat_95_def job_lat_95_def job_outside_def init_store_def new_delivery_def)

lemma reachable_fixtures:
  "reachable E store_outside" "reachable E store_in_zone" "reachable E store_both"
  "reachable E store_near_bob" "reachable E store_lat_95"
  unfolding store_outside_def store_in_zone_def store_both_def store_near_bob_def store_lat_95_def
  by (rule reachable.request[OF reachable.seeded])+

lemma route_at_node_2:
  "suggest_route (two_node_env len) (14.56, 121.02) (14.56, 121.02) = ([(14.56, 121.02)], 0)"
  by (simp add: suggest_route_def route_try_def two_node_env_def power2_eq_square)

lemma pick_for_outside:
  "assign_driver (two_node_env len)
      \<lparr>dlv_id = n, dlv_lat = 14.56, dlv_lon = 121.02, address = a,
       assigned_driver = None, eta_min = None, route_coords = None\<rparr> init_drivers
   = Inr (\<lparr>drv_id = 3, imei = ''345678901234567'', driver = ''Charlie'',
            drv_lat = 14.56, drv_lon = 121.02, current_load = 1\<rparr>,
          \<lparr>dlv_id = n, dlv_lat = 14.56, dlv_lon = 121.02, address = a,
            assigned_driver = Some 3, eta_min = None, route_coords = None\<rparr>,
          [\<lparr>drv_id = 1, imei = ''123456789012345'', driver = ''Alice'',
             drv_lat = 14.5547, drv_lon = 121.0244, current_load = 1\<rparr>,
           \<lparr>drv_id = 2, imei = ''234567890123456'', driver = ''Bob'',
             drv_lat = 14.555, drv_lon = 121.03, current_load = 2\<rparr>,
           \<lparr>drv_id = 3, imei = ''345678901234567'', driver = ''Charlie'',
             drv_lat = 14.56, drv_lon = 121.02, current_load = 1\<rparr>])"
  by (simp add: assign_driver_def init_drivers_def score_def two_node_env_def float_eval)

lemma assign_all_outside:
  "assign_all (two_node_env len) store_outside =
    (Inr [(1, ''Charlie'', 0)],
     \<lparr>drivers =
        [\<lparr>drv_id = 1, imei = ''123456789012345'', driver = ''Alice'',
           drv_lat = 14.5547, drv_lon = 121.0244, current_load = 1\<rparr>,
         \<lparr>drv_id = 2, imei = ''234567890123456'', driver = ''Bob'',
           drv_lat = 14.555, drv_lon = 121.03, current_load = 2\<rparr>,
         \<lparr>drv_id = 3, imei = ''345678901234567'', driver = ''Charlie'',
           drv_lat = 14.56, drv_lon = 121.02, current_load = 1\<rparr>],
      deliveries =
        [\<lparr>dlv_id = 1, dlv_lat = 14.56, dlv_lon = 121.02, address = ''Ayala Avenue'',
          assigned_driver = Some 3, eta_min = Some 0, route_coords = Some [(14.56, 121.02)]\<rparr>]\<rparr>)"
proof -
  let ?d = "\<lparr>dlv_id = 1, dlv_lat = 14.56, dlv_lon = 121.02, address = ''Ayala Avenue'',
           assigned_driver = None, eta_min = None, route_coords = None\<rparr>"
  have ns: "\<not> settled ?d" by (simp add: settled_def geofenced_iff)
  show ?thesis
    by (simp only: store_outside_eq assign_all_def store.simps assign_loop_unsettled[OF ns]
          pick_for_outside sum.case prod.case Let_def driver_rec.simps delivery_rec.simps
          route_at_node_2 assign_loop.simps(1) option.case)
qed

lemma assign_all_both:
  "assign_all (two_node_env len) store_both =
    (Inr [(2, ''Charlie'', 0)],
     \<lparr>drivers =
        [\<lparr>drv_id = 1, imei = ''123456789012345'', driver = ''Alice'',
           drv_lat = 14.5547, drv_lon = 121.0244, current_load = 1\<rparr>,
         \<lparr>drv_id = 2, imei = ''234567890123456'', driver = ''Bob'',
           drv_lat = 14.555, drv_lon = 121.03, current_load = 2\<rparr>,
         \<lparr>drv_id = 3, imei = ''345678901234567'', driver = ''Charlie'',
           drv_lat = 14.56, drv_lon = 121.02, current_load = 1\<rparr>],
      deliveries =
        [\<lparr>dlv_id = 1, dlv_lat = 14.5555, dlv_lon = 121.024, address = ''Unknown'',
           assigned_driver = None, eta_min = None, route_coords = None\<rparr>,
         \<lparr>dlv_id = 2, dlv_lat = 14.56, dlv_lon = 121.02, address = ''Ayala Avenue'',
          assigned_driver = Some 3, eta_min = Some 0, route_coords = Some [(14.56, 121.02)]\<rparr>]\<rparr>)"
proof -
  let ?z = "\<lparr>dlv_id = 1, dlv_lat = 14.5555, dlv_lon = 121.024, address = ''Unknown'',
           assigned_driver = None, eta_min = None, route_coords = None\<rparr>"
  let ?d = "\<lparr>dlv_id = 2, dlv_lat = 14.56, dlv_lon = 121.02, address = ''Ayala Avenue'',
           assigned_driver = None, eta_min = None, route_coords = None\<rparr>"
  have z: "settled ?z" by (simp add: settled_def geofenced_iff)
  have ns: "\<not> settled ?d" by (simp add: settled_def geofenced_iff)
  show ?thesis
    by (simp only: store_both_eq assign_all_def store.simps assign_loop_settled[OF z]
          assign_loop_unsettled[OF ns]
          pick_for_outside sum.case prod.case Let_def driver_rec.simps delivery_rec.simps
          route_at_node_2 assign_loop.simps(1) option.case)
qed

lemma assign_all_in_zone:
  "assign_all E store_in_zone = (Inr [], store_in_zone)"
proof -
  let ?z = "\<lparr>dlv_id = 1, dlv_lat = 14.5555, dlv_lon = 121.024, address = ''Unknown'',
           assigned_driver = None, eta_min = None, route_coords = None\<rparr>"
  have z: "settled ?z" by (simp add: settled_def geofenced_iff)
  show ?thesis
    by (simp only: store_in_zone_eq assign_all_def store.simps assign_loop_settled[OF z]
          prod.case assign_loop.simps(1) option.case)
qed

lemma route_from_alice_to_bob:
  "suggest_route (two_node_env len) (14.5547, 121.0244) (14.555, 121.03)
     = ([(14.5547, 121.0244)], 0)"
  by (simp add: suggest_route_def route_try_def two_node_env_def power2_eq_square)

lemma scores_near_bob:
  "score (two_node_env len)
      \<lparr>dlv_id = n, dlv_lat = 14.555, dlv_lon = 121.03, address = a,
       assigned_driver = None, eta_min = None, route_coords = None\<rparr> (init_drivers ! 0)
     = Inr (to_double (0.6549 + to_double 1))"
  "score (two_node_env len)
      \<lparr>dlv_id = n, dlv_lat = 14.555, dlv_lon = 121.03, address = a,
       assigned_driver = None, eta_min = None, route_coords = None\<rparr> (init_drivers ! 1)
     = Inr (to_double (0 + to_double 2))"
  "score (two_node_env len)
      \<lparr>dlv_id = n, dlv_lat = 14.555, dlv_lon = 121.03, address = a,
       assigned_driver = None, eta_min = None, route_coords = None\<rparr> (init_drivers ! 2)
     = Inr (to_double (1.665 + to_double 0))"
  by (simp_all add: score_def two_node_env_def init_drivers_def)

lemma pick_near_bob:
  "assign_driver (two_node_env len)
      \<lparr>dlv_id = n, dlv_lat = 14.555, dlv_lon = 121.03, address = a,
       assigned_driver = None, eta_min = None, route_coords = None\<rparr> init_drivers
   = Inr (\<lparr>drv_id = 1, imei = ''123456789012345'', driver = ''Alice'',
            drv_lat = 14.5547, drv_lon = 121.0244, current_load = 2\<rparr>,
          \<lparr>dlv_id = n, dlv_lat = 14.555, dlv_lon = 121.03, address = a,
            assigned_driver = Some 1, eta_min = None, route_coords = None\<rparr>,
          [\<lparr>drv_id = 1, imei = ''123456789012345'', driver = ''Alice'',
             drv_lat = 14.5547, drv_lon = 121.0244, current_load = 2\<rparr>,
           \<lparr>drv_id = 2, imei = ''234567890123456'', driver = ''Bob'',
             drv_lat = 14.555, drv_lon = 121.03, current_load = 2\<rparr>,
           \<lparr>drv_id = 3, imei = ''345678901234567'', driver = ''Charlie'',
             drv_lat = 14.56, drv_lon = 121.02, current_load = 0\<rparr>])"
  by (simp add: assign_driver_def init_drivers_def score_def two_node_env_def float_eval)

lemma assign_all_near_bob:
  "assign_all (two_node_env len) store_near_bob =
    (Inr [(1, ''Alice'', 0)],
     \<lparr>drivers =
        [\<lparr>drv_id = 1, imei = ''123456789012345'', driver = ''Alice'',
           drv_lat = 14.5547, drv_lon = 121.0244, current_load = 2\<rparr>,
         \<lparr>drv_id = 2, imei = ''234567890123456'', driver = ''Bob'',
           drv_lat = 14.555, drv_lon = 121.03, current_load = 2\<rparr>,
         \<lparr>drv_id = 3, imei = ''345678901234567'', driver = ''Charlie'',
           drv_lat = 14.56, drv_lon = 121.02, current_load = 0\<rparr>],
      deliveries =
        [\<lparr>dlv_id = 1, dlv_lat = 14.555, dlv_lon = 121.03, address = ''Unknown'',
          assigned_driver = Some 1, eta_min = Some 0,
          route_coords = Some [(14.5547, 121.0244)]\<rparr>]\<rparr>)"
proof -
  let ?d = "\<lparr>dlv_id = 1, dlv_lat = 14.555, dlv_lon = 121.03, address = ''Unknown'',
           assigned_driver = None, eta_min = None, route_coords = None\<rparr>"
  have ns: "\<not> settled ?d" by (simp add: settled_def geofenced_iff)
  show ?thesis
    by (simp only: store_near_bob_eq assign_all_def store.simps assign_loop_unsettled[OF ns]
          pick_near_bob sum.case prod.case Let_def driver_rec.simps delivery_rec.simps
          route_from_alice_to_bob assign_loop.simps(1) option.case)
qed

lemma assign_all_lat_95:
  "assign_all checked_env store_lat_95
     = (Inl (ValueError ''Latitude or longitude out of range''), store_lat_95)"
proof -
  let ?d = "\<lparr>dlv_id = 1, dlv_lat = 95, dlv_lon = 121.02, address = ''Unknown'',
           assigned_driver = None, eta_min = None, route_coords = None\<rparr>"
  have ns: "\<not> settled ?d" by (simp add: settled_def geofenced_iff)
  have bad: "assign_driver checked_env ?d init_drivers
               = Inl (ValueError ''Latitude or longitude out of range'')"
    by (simp add: assign_driver_def init_drivers_def score_def checked_env_def in_range_def)
  show ?thesis
    by (simp only: store_lat_95_eq assign_all_def store.simps assign_loop_unsettled[OF ns]
          bad sum.case prod.case option.case)
qed

theorem assigned_driver_exists_witness:
  "reachable (two_node_env 800) store_both
   \<and> fst (assign_all (two_node_env 800) store_both) = Inr [(2, ''Charlie'', 0)]
   \<and> map assigned_driver (deliveries (snd (assign_all (two_node_env 800) store_both))) = [None, Some 3]
   \<and> map drv_id (drivers (snd (assign_all (two_node_env 800) store_both))) = [1, 2, 3]
   \<and> geofenced (deliveries (snd (assign_all (two_node_env 800) store_both)) ! 0)
   \<and> reachable checked_env store_lat_95
   \<and> fst (assign_all checked_env store_lat_95)
       = Inl (ValueError ''Latitude or longitude out of range'')
   \<and> (\<exists>j\<in>set (deliveries (snd (assign_all checked_env store_lat_95))).
         assigned_driver j = None \<and> \<not> geofenced j)"
proof -
  let ?E = "two_node_env 800"
  have r: "reachable ?E store_both" by (rule reachable_fixtures)
  have ok: "fst (assign_all ?E store_both) = Inr [(2, ''Charlie'', 0)]"
    by (simp add: assign_all_both)
  have un: "assigned_driver (deliveries (snd (assign_all ?E store_both)) ! 0) = None"
    by (simp add: assign_all_both)
  have mem: "deliveries (snd (assign_all ?E store_both)) ! 0
             \<in> set (deliveries (snd (assign_all ?E store_both)))"
    by (simp add: assign_all_both)
  from assigned_driver_exists[OF r] ok mem un
  have g: "geofenced (deliveries (snd (assign_all ?E store_both)) ! 0)" by blast
  have r2: "reachable checked_env store_lat_95" by (rule reachable_fixtures)
  have bad: "fst (assign_all checked_env store_lat_95)
       = Inl (ValueError ''Latitude or longitude out of range'')"
    by (simp add: assign_all_lat_95)
  from assigned_driver_exists[OF r2] bad
  have left: "\<exists>j\<in>set (deliveries (snd (assign_all checked_env store_lat_95))).
         assigned_driver j = None \<and> \<not> geofenced j" by blast
  have a: "map assigned_driver (deliveries (snd (assign_all ?E store_both))) = [None, Some 3]"
    by (simp add: assign_all_both)
  have b: "map drv_id (drivers (snd (assign_all ?E store_both))) = [1, 2, 3]"
    by (simp add: assign_all_both)
  from r ok a b g r2 bad left show ?thesis by (intro conjI)
qed

text \<open>
  C2 as stated fails: in the store with a job of latitude 95 and a job at (14.56, 121.02),
  with a distance function that checks its arguments, the call ends in \<^verbatim>\<open>ValueError\<close> at
  the first job. Both jobs stay unassigned although neither is inside a geofence and there
  are three drivers.
\<close>

theorem unassigned_without_reason_counterexample:
  "reachable checked_env store_lat_95
   \<and> fst (assign_all checked_env store_lat_95)
       = Inl (ValueError ''Latitude or longitude out of range'')
   \<and> map assigned_driver (deliveries (snd (assign_all checked_env store_lat_95))) = [None, None]
   \<and> \<not> geofenced (deliveries (snd (assign_all checked_env store_lat_95)) ! 0)
   \<and> \<not> geofenced (deliveries (snd (assign_all checked_env store_lat_95)) ! 1)
   \<and> length (drivers (snd (assign_all checked_env store_lat_95))) = 3"
proof -
  have r: "reachable checked_env store_lat_95" by (rule reachable_fixtures)
  have s: "snd (assign_all checked_env store_lat_95) = store_lat_95"
    by (simp add: assign_all_lat_95)
  have bad: "fst (assign_all checked_env store_lat_95)
       = Inl (ValueError ''Latitude or longitude out of range'')"
    by (simp add: assign_all_lat_95)
  have a: "map assigned_driver (deliveries store_lat_95) = [None, None]"
    by (simp add: store_lat_95_eq)
  have g0: "\<not> geofenced (deliveries store_lat_95 ! 0)"
    by (simp add: store_lat_95_eq geofenced_iff)
  have g1: "\<not> geofenced (deliveries store_lat_95 ! 1)"
    by (simp add: store_lat_95_eq geofenced_iff)
  have d: "length (drivers store_lat_95) = 3" by (simp add: store_lat_95_eq init_drivers_def)
  from r bad a g0 g1 d show ?thesis unfolding s by (intro conjI)
qed

theorem geofenced_job_untouched_witness:
  "0 < length (deliveries store_in_zone)
   \<and> assigned_driver (deliveries store_in_zone ! 0) = None
   \<and> (\<exists>gf\<in>set geofences.
         contains (polygon gf)
           (dlv_lat (deliveries store_in_zone ! 0), dlv_lon (deliveries store_in_zone ! 0)))
   \<and> assign_all (two_node_env 800) store_in_zone = (Inr [], store_in_zone)
   \<and> deliveries (snd (assign_all (two_node_env 800) store_in_zone)) ! 0
     = deliveries store_in_zone ! 0
   \<and> map current_load (drivers (snd (assign_all (two_node_env 800) store_in_zone))) = [1, 2, 0]"
proof -
  let ?E = "two_node_env 800"
  have h1: "0 < length (deliveries store_in_zone)" by (simp add: store_in_zone_eq)
  have h2: "assigned_driver (deliveries store_in_zone ! 0) = None" by (simp add: store_in_zone_eq)
  have c: "contains [(14.555, 121.023), (14.556, 121.023), (14.556, 121.025), (14.555, 121.025)]
             (14.5555, 121.024)"
    unfolding nogo_contains by simp
  have h3: "\<exists>gf\<in>set geofences.
         contains (polygon gf)
           (dlv_lat (deliveries store_in_zone ! 0), dlv_lon (deliveries store_in_zone ! 0))"
    using c by (simp add: geofences_def store_in_zone_eq)
  have others: "\<forall>j<length (deliveries store_in_zone). j \<noteq> 0 \<longrightarrow> settled (deliveries store_in_zone ! j)"
    by (simp add: store_in_zone_eq)
  from geofenced_job_untouched[OF h1 h2 h3, of ?E] others
  have a: "assign_all ?E store_in_zone = (Inr [], store_in_zone)"
    and k: "deliveries (snd (assign_all ?E store_in_zone)) ! 0 = deliveries store_in_zone ! 0"
    by blast+
  have l: "map current_load (drivers store_in_zone) = [1, 2, 0]"
    by (simp add: store_in_zone_eq init_drivers_def)
  from h1 h2 h3 a k l show ?thesis by (simp only: snd_conv)
qed

text \<open>
  C3 as stated fails when another job is pending: in the store with the geofenced job and
  a job outside the geofence, the call assigns the second job and a load changes.
\<close>

theorem geofenced_job_loads_counterexample:
  "reachable (two_node_env 800) store_both
   \<and> assigned_driver (deliveries store_both ! 0) = None
   \<and> contains (polygon (geofences ! 0))
        (dlv_lat (deliveries store_both ! 0), dlv_lon (deliveries store_both ! 0))
   \<and> assigned_driver (deliveries (snd (assign_all (two_node_env 800) store_both)) ! 0) = None
   \<and> map current_load (drivers store_both) = [1, 2, 0]
   \<and> map current_load (drivers (snd (assign_all (two_node_env 800) store_both))) = [1, 2, 1]"
proof -
  have c: "contains [(14.555, 121.023), (14.556, 121.023), (14.556, 121.025), (14.555, 121.025)]
             (14.5555, 121.024)"
    unfolding nogo_contains by simp
  have "contains (polygon (geofences ! 0))
        (dlv_lat (deliveries store_both ! 0), dlv_lon (deliveries store_both ! 0))"
    using c by (simp add: geofences_def store_both_eq)
  moreover have "map current_load (drivers store_both) = [1, 2, 0]"
    by (simp add: store_both_eq init_drivers_def)
  moreover have "assigned_driver (deliveries store_both ! 0) = None"
    by (simp add: store_both_eq)
  moreover note reachable_fixtures(3)[of "two_node_env 800"]
  ultimately show ?thesis by (simp add: assign_all_both)
qed

theorem assign_all_idempotent_witness:
  "reachable (two_node_env 800) (snd (assign_all (two_node_env 800) store_outside))
   \<and> map assigned_driver (deliveries (snd (assign_all (two_node_env 800) store_outside))) = [Some 3]
   \<and> assign_all (two_node_env 800) (snd (assign_all (two_node_env 800) store_outside))
     = (Inr [], snd (assign_all (two_node_env 800) store_outside))
   \<and> map current_load (drivers (snd (assign_all (two_node_env 800) store_outside))) = [1, 2, 1]
   \<and> map current_load
        (drivers (snd (assign_all (two_node_env 800) (snd (assign_all (two_node_env 800) store_outside)))))
     = [1, 2, 1]"
proof -
  let ?E = "two_node_env 800"
  let ?s = "snd (assign_all ?E store_outside)"
  have r: "reachable ?E ?s" by (rule reachable.assign[OF reachable_fixtures(1)])
  have ds: "map assigned_driver (deliveries ?s) = [Some 3]" by (simp add: assign_all_outside)
  have all: "\<forall>i<length (deliveries ?s). assigned_driver (deliveries ?s ! i) \<noteq> None"
    by (simp add: assign_all_outside)
  from assign_all_idempotent[OF r] all have same: "assign_all ?E ?s = (Inr [], ?s)" by blast
  have l: "map current_load (drivers ?s) = [1, 2, 1]" by (simp add: assign_all_outside)
  from r ds same l show ?thesis by (simp only: snd_conv)
qed

section \<open>The driver chosen for a job\<close>

lemma assign_loop_append:
  "assign_loop E (pre @ post) drs =
    (case assign_loop E pre drs of
       (None, pre', drs1, resp1) \<Rightarrow>
         (case assign_loop E post drs1 of
            (err, post', drs2, resp2) \<Rightarrow> (err, pre' @ post', drs2, resp1 @ resp2))
     | (Some e, pre', drs1, resp1) \<Rightarrow> (Some e, pre' @ post, drs1, resp1))"
proof (induction pre arbitrary: drs)
  case Nil
  show ?case by (simp split: prod.splits)
next
  case (Cons p pre)
  show ?case
  proof (cases "settled p")
    case True
    show ?thesis
      unfolding append_Cons assign_loop_settled[OF True]
      by (auto simp add: Cons.IH split: prod.splits option.splits)
  next
    case False
    show ?thesis
    proof (cases "assign_driver E p drs")
      case (Inl e)
      then show ?thesis
        unfolding append_Cons assign_loop_unsettled[OF False] by simp
    next
      case (Inr r)
      obtain drv d1 drs1 where r: "r = (drv, d1, drs1)" by (cases r) auto
      show ?thesis
        unfolding append_Cons assign_loop_unsettled[OF False] Inr r
        by (auto simp add: Cons.IH Let_def split: prod.splits option.splits)
    qed
  qed
qed

lemma score_total:
  assumes "haversine E (drv_lat w, drv_lon w) (dlv_lat d, dlv_lon d) = Inr km"
  shows "score E d w = Inr (to_double (km + to_double (of_int (current_load w))))"
  using assms by (simp add: score_def)

lemma driver_ids_increasing: "driver_ids_ok drs \<Longrightarrow> sorted_wrt (<) (map drv_id drs)"
proof -
  assume ok: "driver_ids_ok drs"
  have "\<forall>i j. i < j \<longrightarrow> j < length (map drv_id drs) \<longrightarrow> map drv_id drs ! i < map drv_id drs ! j"
  proof (intro allI impI)
    fix i j assume ij: "i < j" and j: "j < length (map drv_id drs)"
    then have "i < length drs" "j < length drs" by simp_all
    with driver_ids_nth[OF ok] ij show "map drv_id drs ! i < map drv_id drs ! j" by simp
  qed
  then show ?thesis by (simp only: sorted_wrt_iff_nth_less)
qed

lemma assign_driver_min:
  assumes ids: "sorted_wrt (<) (map drv_id drs)" and ne: "drs \<noteq> []"
    and hav: "\<forall>w\<in>set drs. \<exists>km. haversine E (drv_lat w, drv_lon w) (dlv_lat d, dlv_lon d) = Inr km"
  shows "(\<exists>k km. k < length drs
            \<and> haversine E (drv_lat (drs ! k), drv_lon (drs ! k)) (dlv_lat d, dlv_lon d) = Inr km
            \<and> (\<forall>w\<in>set drs. \<exists>km'.
                  haversine E (drv_lat w, drv_lon w) (dlv_lat d, dlv_lon d) = Inr km'
                  \<and> to_double (km + to_double (of_int (current_load (drs ! k))))
                      \<le> to_double (km' + to_double (of_int (current_load w)))
                  \<and> (to_double (km' + to_double (of_int (current_load w)))
                       = to_double (km + to_double (of_int (current_load (drs ! k))))
                      \<longrightarrow> drv_id (drs ! k) \<le> drv_id w))
            \<and> assign_driver E d drs =
                Inr ((drs ! k)\<lparr>current_load := current_load (drs ! k) + 1\<rparr>,
                     d\<lparr>assigned_driver := Some (drv_id (drs ! k))\<rparr>,
                     drs[k := (drs ! k)\<lparr>current_load := current_load (drs ! k) + 1\<rparr>]))"
proof -
  let ?sc = "\<lambda>km w. to_double (km + to_double (of_int (current_load w)))"
  have "\<forall>w\<in>set drs. \<exists>sc. score E d w = Inr sc"
    using hav score_total by blast
  from py_min_index_total[OF ne this] obtain k where k: "py_min_index (score E d) drs = Inr k"
    by blast
  from py_min_index_spec[OF k] obtain sc where kl: "k < length drs"
    and sc: "score E d (drs ! k) = Inr sc"
    and mn: "\<forall>m<length drs. \<exists>sc'. score E d (drs ! m) = Inr sc' \<and> sc \<le> sc' \<and> (m < k \<longrightarrow> sc < sc')"
    by blast
  from kl hav obtain km where km: "haversine E (drv_lat (drs ! k), drv_lon (drs ! k)) (dlv_lat d, dlv_lon d) = Inr km"
    by (meson nth_mem)
  from score_total[OF km] sc have sck: "sc = ?sc km (drs ! k)" by simp
  have "\<forall>w\<in>set drs. \<exists>km'.
          haversine E (drv_lat w, drv_lon w) (dlv_lat d, dlv_lon d) = Inr km'
          \<and> ?sc km (drs ! k) \<le> ?sc km' w
          \<and> (?sc km' w = ?sc km (drs ! k) \<longrightarrow> drv_id (drs ! k) \<le> drv_id w)"
  proof
    fix w assume w: "w \<in> set drs"
    then obtain m where m: "m < length drs" "w = drs ! m" by (auto simp: in_set_conv_nth)
    from hav w obtain km' where km': "haversine E (drv_lat w, drv_lon w) (dlv_lat d, dlv_lon d) = Inr km'"
      by blast
    from mn m(1) obtain sc' where s': "score E d (drs ! m) = Inr sc'" "sc \<le> sc'" "m < k \<longrightarrow> sc < sc'"
      by blast
    from score_total[OF km'] s'(1) m(2) have scw: "sc' = ?sc km' w" by simp
    have "sc' = sc \<longrightarrow> drv_id (drs ! k) \<le> drv_id w"
    proof
      assume "sc' = sc"
      with s'(3) have "k \<le> m" by auto
      show "drv_id (drs ! k) \<le> drv_id w"
      proof (cases "k = m")
        case True
        then show ?thesis by (simp add: m(2))
      next
        case False
        with \<open>k \<le> m\<close> have "k < m" by simp
        with ids m(1) have "map drv_id drs ! k < map drv_id drs ! m"
          by (simp only: sorted_wrt_iff_nth_less length_map)
        with kl m show ?thesis by simp
      qed
    qed
    with s'(2) km' show "\<exists>km'.
          haversine E (drv_lat w, drv_lon w) (dlv_lat d, dlv_lon d) = Inr km'
          \<and> ?sc km (drs ! k) \<le> ?sc km' w
          \<and> (?sc km' w = ?sc km (drs ! k) \<longrightarrow> drv_id (drs ! k) \<le> drv_id w)"
      unfolding sck scw by blast
  qed
  moreover have "assign_driver E d drs =
               Inr ((drs ! k)\<lparr>current_load := current_load (drs ! k) + 1\<rparr>,
                    d\<lparr>assigned_driver := Some (drv_id (drs ! k))\<rparr>,
                    drs[k := (drs ! k)\<lparr>current_load := current_load (drs ! k) + 1\<rparr>])"
    by (simp add: assign_driver_def k Let_def)
  ultimately show ?thesis using kl km by blast
qed

lemma assign_all_nth_assigned:
  assumes i: "i < length (deliveries s)"
    and ns: "\<not> settled (deliveries s ! i)"
    and pre: "assign_loop E (take i (deliveries s)) (drivers s) = (None, pre', drs_i, resp_i)"
    and pick: "assign_driver E (deliveries s ! i) drs_i = Inr (drv, d1, drs1)"
  shows "assigned_driver (deliveries (snd (assign_all E s)) ! i) = assigned_driver d1"
proof -
  let ?d = "deliveries s ! i" and ?post = "drop (Suc i) (deliveries s)"
  have split: "deliveries s = take i (deliveries s) @ (?d # ?post)"
    by (rule id_take_nth_drop[OF i])
  from assign_loop_shape[OF pre] i have len: "length pre' = i" by simp
  obtain route eta where sr:
    "suggest_route E (drv_lat drv, drv_lon drv) (dlv_lat d1, dlv_lon d1) = (route, eta)"
    by (cases "suggest_route E (drv_lat drv, drv_lon drv) (dlv_lat d1, dlv_lon d1)") auto
  obtain e2 ds2 drs2 resp2 where rest: "assign_loop E ?post drs1 = (e2, ds2, drs2, resp2)"
    by (cases "assign_loop E ?post drs1") auto
  have step: "assign_loop E (?d # ?post) drs_i =
      (e2, d1\<lparr>eta_min := Some eta, route_coords := Some route\<rparr> # ds2, drs2,
       (dlv_id d1, driver drv, eta) # resp2)"
    unfolding assign_loop_unsettled[OF ns] pick by (simp add: sr rest Let_def)
  have "assign_loop E (take i (deliveries s) @ (?d # ?post)) (drivers s) =
      (e2, pre' @ d1\<lparr>eta_min := Some eta, route_coords := Some route\<rparr> # ds2, drs2,
       resp_i @ (dlv_id d1, driver drv, eta) # resp2)"
    unfolding assign_loop_append[of E "take i (deliveries s)"] pre by (simp add: step)
  then have "assign_loop E (deliveries s) (drivers s) =
      (e2, pre' @ d1\<lparr>eta_min := Some eta, route_coords := Some route\<rparr> # ds2, drs2,
       resp_i @ (dlv_id d1, driver drv, eta) # resp2)"
    using split by simp
  from assign_all_parts[OF this] len show ?thesis by (simp add: nth_append)
qed

lemma to_double_1: "to_double 1 = 1" by (simp add: float_eval)

lemma to_double_2: "to_double 2 = 2" by (simp add: float_eval)

lemma scenario_B_pick:
  assumes a: "haversine E (14.5547, 121.0244) (dlv_lat d, dlv_lon d) = Inr a" "\<bar>a - 0.1\<bar> \<le> 0.2"
    and b: "haversine E (14.555, 121.03) (dlv_lat d, dlv_lon d) = Inr b" "\<bar>b - 0.6\<bar> \<le> 0.2"
  shows "assign_driver E d
           [\<lparr>drv_id = 1, imei = ''123456789012345'', driver = ''Alice'',
              drv_lat = 14.5547, drv_lon = 121.0244, current_load = 1\<rparr>,
            \<lparr>drv_id = 2, imei = ''234567890123456'', driver = ''Bob'',
              drv_lat = 14.555, drv_lon = 121.03, current_load = 2\<rparr>]
         = Inr (\<lparr>drv_id = 1, imei = ''123456789012345'', driver = ''Alice'',
              drv_lat = 14.5547, drv_lon = 121.0244, current_load = 2\<rparr>,
                d\<lparr>assigned_driver := Some 1\<rparr>,
                [\<lparr>drv_id = 1, imei = ''123456789012345'', driver = ''Alice'',
              drv_lat = 14.5547, drv_lon = 121.0244, current_load = 2\<rparr>,
                 \<lparr>drv_id = 2, imei = ''234567890123456'', driver = ''Bob'',
              drv_lat = 14.555, drv_lon = 121.03, current_load = 2\<rparr>])"
proof -
  let ?alice = "\<lparr>drv_id = 1, imei = ''123456789012345'', driver = ''Alice'',
              drv_lat = 14.5547, drv_lon = 121.0244, current_load = 1\<rparr>"
  let ?bob = "\<lparr>drv_id = 2, imei = ''234567890123456'', driver = ''Bob'',
              drv_lat = 14.555, drv_lon = 121.03, current_load = 2\<rparr>"
  have sa: "score E d ?alice = Inr (to_double (a + 1))"
    unfolding score_def by (simp only: driver_rec.simps a(1) sum.case) (simp add: to_double_1)
  have sb: "score E d ?bob = Inr (to_double (b + 2))"
    unfolding score_def by (simp only: driver_rec.simps b(1) sum.case) (simp add: to_double_2)
  have ra: "a + 1 \<le> 13 / 10" "1 / 2 ^ 20 \<le> a + 1" using a(2) by (simp_all add: abs_if split: if_splits)
  have rb: "24 / 10 \<le> b + 2" using b(2) by (simp add: abs_if split: if_splits)
  then have rb': "1 / 2 ^ 20 \<le> b + 2" by simp
  have "to_double (a + 1) \<le> (a + 1) * (1 + 1 / 2 ^ 53)"
    by (rule to_double_bounds(2)[OF tiny_le[OF ra(2)]])
  also have "\<dots> \<le> 13 / 10 * (1 + 1 / 2 ^ 53)"
    using ra(1) by (intro mult_right_mono) simp_all
  also have "\<dots> < 24 / 10 * (1 - 1 / 2 ^ 53)" by simp
  also have "\<dots> \<le> (b + 2) * (1 - 1 / 2 ^ 53)"
    using rb by (intro mult_right_mono) simp_all
  also have "\<dots> \<le> to_double (b + 2)"
    by (rule to_double_bounds(1)[OF tiny_le[OF rb']])
  finally have lt: "\<not> to_double (b + 2) < to_double (a + 1)" by simp
  have "py_min_index (score E d) [?alice, ?bob] = Inr 0"
    by (simp only: py_min_index.simps min_scan.simps sa sb sum.case lt if_False)
  then show ?thesis
    unfolding assign_driver_def
    by (simp only: sum.case Let_def nth_Cons_0 list_update_code driver_rec.simps) simp
qed

text \<open>
  C1. The key of the minimum is the float sum of the distance and the load,
  \<open>to_double (km + to_double (of_int current_load))\<close>. When the loop of the assignment
  endpoint reaches a pending job (in a store the service can reach, with the drivers as
  the earlier jobs of the same call left them) and the distance to every driver is
  defined, the job is assigned to a driver whose key is minimal, and among drivers of
  equal key to the one of lowest id. The same holds for \<^verbatim>\<open>assign_driver\<close> on any non-empty
  driver list whose ids increase along the list. With Alice (load 1, about 0.1 km away)
  and Bob (load 2, about 0.6 km away) as the only drivers, Alice is chosen and her load
  becomes 2.
\<close>

theorem assign_driver_min_score:
  "(reachable E s \<and> i < length (deliveries s) \<and> \<not> settled (deliveries s ! i)
      \<and> assign_loop E (take i (deliveries s)) (drivers s) = (None, pre', drs_i, resp_i)
      \<and> (\<forall>w\<in>set drs_i. \<exists>km.
            haversine E (drv_lat w, drv_lon w)
              (dlv_lat (deliveries s ! i), dlv_lon (deliveries s ! i)) = Inr km)
    \<longrightarrow> drs_i \<noteq> []
        \<and> (\<exists>k km. k < length drs_i
            \<and> haversine E (drv_lat (drs_i ! k), drv_lon (drs_i ! k))
                (dlv_lat (deliveries s ! i), dlv_lon (deliveries s ! i)) = Inr km
            \<and> (\<forall>w\<in>set drs_i. \<exists>km'.
                  haversine E (drv_lat w, drv_lon w)
                    (dlv_lat (deliveries s ! i), dlv_lon (deliveries s ! i)) = Inr km'
                  \<and> to_double (km + to_double (of_int (current_load (drs_i ! k))))
                      \<le> to_double (km' + to_double (of_int (current_load w)))
                  \<and> (to_double (km' + to_double (of_int (current_load w)))
                       = to_double (km + to_double (of_int (current_load (drs_i ! k))))
                      \<longrightarrow> drv_id (drs_i ! k) \<le> drv_id w))
            \<and> assign_driver E (deliveries s ! i) drs_i =
                Inr ((drs_i ! k)\<lparr>current_load := current_load (drs_i ! k) + 1\<rparr>,
                     (deliveries s ! i)\<lparr>assigned_driver := Some (drv_id (drs_i ! k))\<rparr>,
                     drs_i[k := (drs_i ! k)\<lparr>current_load := current_load (drs_i ! k) + 1\<rparr>])
            \<and> assigned_driver (deliveries (snd (assign_all E s)) ! i)
                = Some (drv_id (drs_i ! k))))
   \<and> (drs \<noteq> [] \<and> sorted_wrt (<) (map drv_id drs)
      \<and> (\<forall>w\<in>set drs. \<exists>km.
            haversine E (drv_lat w, drv_lon w) (dlv_lat job, dlv_lon job) = Inr km)
    \<longrightarrow> (\<exists>k km. k < length drs
            \<and> haversine E (drv_lat (drs ! k), drv_lon (drs ! k)) (dlv_lat job, dlv_lon job) = Inr km
            \<and> (\<forall>w\<in>set drs. \<exists>km'.
                  haversine E (drv_lat w, drv_lon w) (dlv_lat job, dlv_lon job) = Inr km'
                  \<and> to_double (km + to_double (of_int (current_load (drs ! k))))
                      \<le> to_double (km' + to_double (of_int (current_load w)))
                  \<and> (to_double (km' + to_double (of_int (current_load w)))
                       = to_double (km + to_double (of_int (current_load (drs ! k))))
                      \<longrightarrow> drv_id (drs ! k) \<le> drv_id w))
            \<and> assign_driver E job drs =
                Inr ((drs ! k)\<lparr>current_load := current_load (drs ! k) + 1\<rparr>,
                     job\<lparr>assigned_driver := Some (drv_id (drs ! k))\<rparr>,
                     drs[k := (drs ! k)\<lparr>current_load := current_load (drs ! k) + 1\<rparr>])))
   \<and> (haversine E (14.5547, 121.0244) (dlv_lat d, dlv_lon d) = Inr a \<and> \<bar>a - 0.1\<bar> \<le> 0.2
      \<and> haversine E (14.555, 121.03) (dlv_lat d, dlv_lon d) = Inr b \<and> \<bar>b - 0.6\<bar> \<le> 0.2
    \<longrightarrow> assign_driver E d
           [\<lparr>drv_id = 1, imei = ''123456789012345'', driver = ''Alice'',
              drv_lat = 14.5547, drv_lon = 121.0244, current_load = 1\<rparr>,
            \<lparr>drv_id = 2, imei = ''234567890123456'', driver = ''Bob'',
              drv_lat = 14.555, drv_lon = 121.03, current_load = 2\<rparr>]
         = Inr (\<lparr>drv_id = 1, imei = ''123456789012345'', driver = ''Alice'',
              drv_lat = 14.5547, drv_lon = 121.0244, current_load = 2\<rparr>,
                d\<lparr>assigned_driver := Some 1\<rparr>,
                [\<lparr>drv_id = 1, imei = ''123456789012345'', driver = ''Alice'',
              drv_lat = 14.5547, drv_lon = 121.0244, current_load = 2\<rparr>,
                 \<lparr>drv_id = 2, imei = ''234567890123456'', driver = ''Bob'',
              drv_lat = 14.555, drv_lon = 121.03, current_load = 2\<rparr>]))"
proof (intro conjI impI)
  assume h: "reachable E s \<and> i < length (deliveries s) \<and> \<not> settled (deliveries s ! i)
      \<and> assign_loop E (take i (deliveries s)) (drivers s) = (None, pre', drs_i, resp_i)
      \<and> (\<forall>w\<in>set drs_i. \<exists>km.
            haversine E (drv_lat w, drv_lon w)
              (dlv_lat (deliveries s ! i), dlv_lon (deliveries s ! i)) = Inr km)"
  let ?d = "deliveries s ! i"
  from h have r: "reachable E s" and i: "i < length (deliveries s)" and ns: "\<not> settled ?d"
    and pre: "assign_loop E (take i (deliveries s)) (drivers s) = (None, pre', drs_i, resp_i)"
    and hav: "\<forall>w\<in>set drs_i. \<exists>km. haversine E (drv_lat w, drv_lon w) (dlv_lat ?d, dlv_lon ?d) = Inr km"
    by blast+
  from reachable_inv[OF r] have inv: "drivers s \<noteq> []" "driver_ids_ok (drivers s)"
    by (simp_all add: store_inv_def)
  from assign_loop_shape[OF pre] have sh: "map drv_id drs_i = map drv_id (drivers s)"
    "length drs_i = length (drivers s)" by simp_all
  have "driver_ids_ok drs_i" using sh(1) inv(2) by (rule driver_ids_ok_cong)
  then have ids: "sorted_wrt (<) (map drv_id drs_i)" by (rule driver_ids_increasing)
  show ne: "drs_i \<noteq> []" using sh(2) inv(1) by auto
  from assign_driver_min[OF ids ne hav] obtain k km where k: "k < length drs_i"
    "haversine E (drv_lat (drs_i ! k), drv_lon (drs_i ! k)) (dlv_lat ?d, dlv_lon ?d) = Inr km"
    "\<forall>w\<in>set drs_i. \<exists>km'.
        haversine E (drv_lat w, drv_lon w) (dlv_lat ?d, dlv_lon ?d) = Inr km'
        \<and> to_double (km + to_double (of_int (current_load (drs_i ! k))))
            \<le> to_double (km' + to_double (of_int (current_load w)))
        \<and> (to_double (km' + to_double (of_int (current_load w)))
             = to_double (km + to_double (of_int (current_load (drs_i ! k))))
            \<longrightarrow> drv_id (drs_i ! k) \<le> drv_id w)"
    "assign_driver E ?d drs_i =
               Inr ((drs_i ! k)\<lparr>current_load := current_load (drs_i ! k) + 1\<rparr>,
                    ?d\<lparr>assigned_driver := Some (drv_id (drs_i ! k))\<rparr>,
                    drs_i[k := (drs_i ! k)\<lparr>current_load := current_load (drs_i ! k) + 1\<rparr>])"
    by blast
  from assign_all_nth_assigned[OF i ns pre k(4)]
  have "assigned_driver (deliveries (snd (assign_all E s)) ! i) = Some (drv_id (drs_i ! k))"
    by simp
  with k show "\<exists>k km. k < length drs_i
            \<and> haversine E (drv_lat (drs_i ! k), drv_lon (drs_i ! k)) (dlv_lat ?d, dlv_lon ?d) = Inr km
            \<and> (\<forall>w\<in>set drs_i. \<exists>km'.
                  haversine E (drv_lat w, drv_lon w) (dlv_lat ?d, dlv_lon ?d) = Inr km'
                  \<and> to_double (km + to_double (of_int (current_load (drs_i ! k))))
                      \<le> to_double (km' + to_double (of_int (current_load w)))
                  \<and> (to_double (km' + to_double (of_int (current_load w)))
                       = to_double (km + to_double (of_int (current_load (drs_i ! k))))
                      \<longrightarrow> drv_id (drs_i ! k) \<le> drv_id w))
            \<and> assign_driver E ?d drs_i =
                Inr ((drs_i ! k)\<lparr>current_load := current_load (drs_i ! k) + 1\<rparr>,
                     ?d\<lparr>assigned_driver := Some (drv_id (drs_i ! k))\<rparr>,
                     drs_i[k := (drs_i ! k)\<lparr>current_load := current_load (drs_i ! k) + 1\<rparr>])
            \<and> assigned_driver (deliveries (snd (assign_all E s)) ! i)
                = Some (drv_id (drs_i ! k))"
    by blast
next
  assume "drs \<noteq> [] \<and> sorted_wrt (<) (map drv_id drs)
      \<and> (\<forall>w\<in>set drs. \<exists>km.
            haversine E (drv_lat w, drv_lon w) (dlv_lat job, dlv_lon job) = Inr km)"
  then show "(\<exists>k km. k < length drs
            \<and> haversine E (drv_lat (drs ! k), drv_lon (drs ! k)) (dlv_lat job, dlv_lon job) = Inr km
            \<and> (\<forall>w\<in>set drs. \<exists>km'.
                  haversine E (drv_lat w, drv_lon w) (dlv_lat job, dlv_lon job) = Inr km'
                  \<and> to_double (km + to_double (of_int (current_load (drs ! k))))
                      \<le> to_double (km' + to_double (of_int (current_load w)))
                  \<and> (to_double (km' + to_double (of_int (current_load w)))
                       = to_double (km + to_double (of_int (current_load (drs ! k))))
                      \<longrightarrow> drv_id (drs ! k) \<le> drv_id w))
            \<and> assign_driver E job drs =
                Inr ((drs ! k)\<lparr>current_load := current_load (drs ! k) + 1\<rparr>,
                     job\<lparr>assigned_driver := Some (drv_id (drs ! k))\<rparr>,
                     drs[k := (drs ! k)\<lparr>current_load := current_load (drs ! k) + 1\<rparr>]))"
    using assign_driver_min by blast
next
  assume "haversine E (14.5547, 121.0244) (dlv_lat d, dlv_lon d) = Inr a \<and> \<bar>a - 0.1\<bar> \<le> 0.2
      \<and> haversine E (14.555, 121.03) (dlv_lat d, dlv_lon d) = Inr b \<and> \<bar>b - 0.6\<bar> \<le> 0.2"
  then show "assign_driver E d
           [\<lparr>drv_id = 1, imei = ''123456789012345'', driver = ''Alice'',
              drv_lat = 14.5547, drv_lon = 121.0244, current_load = 1\<rparr>,
            \<lparr>drv_id = 2, imei = ''234567890123456'', driver = ''Bob'',
              drv_lat = 14.555, drv_lon = 121.03, current_load = 2\<rparr>]
         = Inr (\<lparr>drv_id = 1, imei = ''123456789012345'', driver = ''Alice'',
              drv_lat = 14.5547, drv_lon = 121.0244, current_load = 2\<rparr>,
                d\<lparr>assigned_driver := Some 1\<rparr>,
                [\<lparr>drv_id = 1, imei = ''123456789012345'', driver = ''Alice'',
              drv_lat = 14.5547, drv_lon = 121.0244, current_load = 2\<rparr>,
                 \<lparr>drv_id = 2, imei = ''234567890123456'', driver = ''Bob'',
              drv_lat = 14.555, drv_lon = 121.03, current_load = 2\<rparr>])"
    using scenario_B_pick by blast
qed

theorem assign_driver_min_score_witness:
  "reachable (two_node_env 800) store_near_bob
   \<and> 0 < length (deliveries store_near_bob)
   \<and> \<not> settled (deliveries store_near_bob ! 0)
   \<and> assign_loop (two_node_env 800) (take 0 (deliveries store_near_bob)) (drivers store_near_bob)
       = (None, [], init_drivers, [])
   \<and> list_all (\<lambda>w. \<exists>km. haversine (two_node_env 800) (drv_lat w, drv_lon w)
         (dlv_lat (deliveries store_near_bob ! 0), dlv_lon (deliveries store_near_bob ! 0)) = Inr km) init_drivers
   \<and> (\<exists>k km. k < length init_drivers
            \<and> haversine (two_node_env 800) (drv_lat (init_drivers ! k), drv_lon (init_drivers ! k)) (dlv_lat (deliveries store_near_bob ! 0), dlv_lon (deliveries store_near_bob ! 0)) = Inr km
            \<and> list_all (\<lambda>w. \<exists>km'.
                  haversine (two_node_env 800) (drv_lat w, drv_lon w) (dlv_lat (deliveries store_near_bob ! 0), dlv_lon (deliveries store_near_bob ! 0)) = Inr km'
                  \<and> to_double (km + to_double (of_int (current_load (init_drivers ! k))))
                      \<le> to_double (km' + to_double (of_int (current_load w)))) init_drivers
            \<and> assigned_driver (deliveries (snd (assign_all (two_node_env 800) store_near_bob)) ! 0)
                = Some (drv_id (init_drivers ! k)))
   \<and> assigned_driver (deliveries (snd (assign_all (two_node_env 800) store_near_bob)) ! 0) = Some 1
   \<and> map (\<lambda>w. haversine (two_node_env 800) (drv_lat w, drv_lon w) (dlv_lat (deliveries store_near_bob ! 0), dlv_lon (deliveries store_near_bob ! 0))) init_drivers
       = [Inr 0.6549, Inr 0, Inr 1.665]
   \<and> map current_load init_drivers = [1, 2, 0]
   \<and> init_drivers \<noteq> []
   \<and> sorted_wrt (<) (map drv_id init_drivers)
   \<and> (\<exists>k km. k < length init_drivers
            \<and> haversine (two_node_env 800) (drv_lat (init_drivers ! k), drv_lon (init_drivers ! k)) (dlv_lat (deliveries store_near_bob ! 0), dlv_lon (deliveries store_near_bob ! 0)) = Inr km
            \<and> list_all (\<lambda>w. \<exists>km'.
                  haversine (two_node_env 800) (drv_lat w, drv_lon w) (dlv_lat (deliveries store_near_bob ! 0), dlv_lon (deliveries store_near_bob ! 0)) = Inr km'
                  \<and> to_double (km + to_double (of_int (current_load (init_drivers ! k))))
                      \<le> to_double (km' + to_double (of_int (current_load w)))) init_drivers
            \<and> assign_driver (two_node_env 800) (deliveries store_near_bob ! 0) init_drivers =
                Inr ((init_drivers ! k)\<lparr>current_load := current_load (init_drivers ! k) + 1\<rparr>,
                     (deliveries store_near_bob ! 0)\<lparr>assigned_driver := Some (drv_id (init_drivers ! k))\<rparr>,
                     init_drivers[k := (init_drivers ! k)\<lparr>current_load := current_load (init_drivers ! k) + 1\<rparr>]))
   \<and> haversine (two_node_env 800) (14.5547, 121.0244)
        (dlv_lat (deliveries store_both ! 0), dlv_lon (deliveries store_both ! 0)) = Inr 0.1332
   \<and> \<bar>0.1332 - 0.1\<bar> \<le> (0.2 :: real)
   \<and> haversine (two_node_env 800) (14.555, 121.03)
        (dlv_lat (deliveries store_both ! 0), dlv_lon (deliveries store_both ! 0)) = Inr 0.7215
   \<and> \<bar>0.7215 - 0.6\<bar> \<le> (0.2 :: real)
   \<and> assign_driver (two_node_env 800) (deliveries store_both ! 0)
           [\<lparr>drv_id = 1, imei = ''123456789012345'', driver = ''Alice'',
              drv_lat = 14.5547, drv_lon = 121.0244, current_load = 1\<rparr>,
            \<lparr>drv_id = 2, imei = ''234567890123456'', driver = ''Bob'',
              drv_lat = 14.555, drv_lon = 121.03, current_load = 2\<rparr>]
         = Inr (\<lparr>drv_id = 1, imei = ''123456789012345'', driver = ''Alice'',
              drv_lat = 14.5547, drv_lon = 121.0244, current_load = 2\<rparr>,
                (deliveries store_both ! 0)\<lparr>assigned_driver := Some 1\<rparr>,
                [\<lparr>drv_id = 1, imei = ''123456789012345'', driver = ''Alice'',
              drv_lat = 14.5547, drv_lon = 121.0244, current_load = 2\<rparr>,
                 \<lparr>drv_id = 2, imei = ''234567890123456'', driver = ''Bob'',
              drv_lat = 14.555, drv_lon = 121.03, current_load = 2\<rparr>])"
proof -
  let ?E = "two_node_env 800"
  let ?j = "deliveries store_near_bob ! 0"
  have h1: "reachable ?E store_near_bob" by (rule reachable_fixtures)
  have h2: "0 < length (deliveries store_near_bob)" by (simp add: store_near_bob_eq)
  have h3: "\<not> settled ?j"
    by (simp add: store_near_bob_eq settled_def geofenced_iff)
  have h4: "assign_loop ?E (take 0 (deliveries store_near_bob)) (drivers store_near_bob)
       = (None, [], init_drivers, [])"
    by (simp add: store_near_bob_eq)
  have h5: "\<forall>w\<in>set init_drivers. \<exists>km. haversine ?E (drv_lat w, drv_lon w)
         (dlv_lat ?j, dlv_lon ?j) = Inr km"
    by (simp add: two_node_env_def)
  from assign_driver_min_score[where E="?E" and s=store_near_bob and i=0 and pre'="[]" and drs_i=init_drivers and resp_i="[]"]
    h1 h2 h3 h4 h5
  obtain k km where k: "k < length init_drivers"
    "haversine ?E (drv_lat (init_drivers ! k), drv_lon (init_drivers ! k))
        (dlv_lat ?j, dlv_lon ?j) = Inr km"
    "\<forall>w\<in>set init_drivers. \<exists>km'.
        haversine ?E (drv_lat w, drv_lon w) (dlv_lat ?j, dlv_lon ?j) = Inr km'
        \<and> to_double (km + to_double (of_int (current_load (init_drivers ! k))))
            \<le> to_double (km' + to_double (of_int (current_load w)))
        \<and> (to_double (km' + to_double (of_int (current_load w)))
             = to_double (km + to_double (of_int (current_load (init_drivers ! k))))
            \<longrightarrow> drv_id (init_drivers ! k) \<le> drv_id w)"
    "assigned_driver (deliveries (snd (assign_all ?E store_near_bob)) ! 0)
       = Some (drv_id (init_drivers ! k))"
    by blast
  from k(3) have "list_all (\<lambda>w. \<exists>km'.
        haversine ?E (drv_lat w, drv_lon w) (dlv_lat ?j, dlv_lon ?j) = Inr km'
        \<and> to_double (km + to_double (of_int (current_load (init_drivers ! k))))
            \<le> to_double (km' + to_double (of_int (current_load w)))) init_drivers"
    unfolding list_all_iff by blast
  with k(1) k(2) k(4) have c1: "(\<exists>k km. k < length init_drivers
            \<and> haversine ?E (drv_lat (init_drivers ! k), drv_lon (init_drivers ! k)) (dlv_lat ?j, dlv_lon ?j) = Inr km
            \<and> list_all (\<lambda>w. \<exists>km'.
                  haversine ?E (drv_lat w, drv_lon w) (dlv_lat ?j, dlv_lon ?j) = Inr km'
                  \<and> to_double (km + to_double (of_int (current_load (init_drivers ! k))))
                      \<le> to_double (km' + to_double (of_int (current_load w)))) init_drivers
            \<and> assigned_driver (deliveries (snd (assign_all ?E store_near_bob)) ! 0)
                = Some (drv_id (init_drivers ! k)))"
    by blast
  have c2: "assigned_driver (deliveries (snd (assign_all ?E store_near_bob)) ! 0) = Some 1"
    by (simp add: assign_all_near_bob)
  have dist: "map (\<lambda>w. haversine ?E (drv_lat w, drv_lon w) (dlv_lat ?j, dlv_lon ?j)) init_drivers
       = [Inr 0.6549, Inr 0, Inr 1.665]"
    by (simp add: two_node_env_def store_near_bob_eq init_drivers_def)
  have loads: "map current_load init_drivers = [1, 2, 0]" by (simp add: init_drivers_def)
  have g1: "init_drivers \<noteq> []" by (simp add: init_drivers_def)
  have g2: "sorted_wrt (<) (map drv_id init_drivers)" by (simp add: init_drivers_def)
  from assign_driver_min_score[where E="?E" and drs=init_drivers and job="?j"] g1 g2 h5
  obtain k2 km2 where k2: "k2 < length init_drivers"
    "haversine ?E (drv_lat (init_drivers ! k2), drv_lon (init_drivers ! k2))
        (dlv_lat ?j, dlv_lon ?j) = Inr km2"
    "\<forall>w\<in>set init_drivers. \<exists>km'.
        haversine ?E (drv_lat w, drv_lon w) (dlv_lat ?j, dlv_lon ?j) = Inr km'
        \<and> to_double (km2 + to_double (of_int (current_load (init_drivers ! k2))))
            \<le> to_double (km' + to_double (of_int (current_load w)))
        \<and> (to_double (km' + to_double (of_int (current_load w)))
             = to_double (km2 + to_double (of_int (current_load (init_drivers ! k2))))
            \<longrightarrow> drv_id (init_drivers ! k2) \<le> drv_id w)"
    "assign_driver ?E ?j init_drivers =
         Inr ((init_drivers ! k2)\<lparr>current_load := current_load (init_drivers ! k2) + 1\<rparr>,
              ?j\<lparr>assigned_driver := Some (drv_id (init_drivers ! k2))\<rparr>,
              init_drivers[k2 := (init_drivers ! k2)\<lparr>current_load := current_load (init_drivers ! k2) + 1\<rparr>])"
    by blast
  from k2(3) have "list_all (\<lambda>w. \<exists>km'.
        haversine ?E (drv_lat w, drv_lon w) (dlv_lat ?j, dlv_lon ?j) = Inr km'
        \<and> to_double (km2 + to_double (of_int (current_load (init_drivers ! k2))))
            \<le> to_double (km' + to_double (of_int (current_load w)))) init_drivers"
    unfolding list_all_iff by blast
  with k2(1) k2(2) k2(4) have c3: "(\<exists>k km. k < length init_drivers
            \<and> haversine ?E (drv_lat (init_drivers ! k), drv_lon (init_drivers ! k)) (dlv_lat ?j, dlv_lon ?j) = Inr km
            \<and> list_all (\<lambda>w. \<exists>km'.
                  haversine ?E (drv_lat w, drv_lon w) (dlv_lat ?j, dlv_lon ?j) = Inr km'
                  \<and> to_double (km + to_double (of_int (current_load (init_drivers ! k))))
                      \<le> to_double (km' + to_double (of_int (current_load w)))) init_drivers
            \<and> assign_driver ?E ?j init_drivers =
                Inr ((init_drivers ! k)\<lparr>current_load := current_load (init_drivers ! k) + 1\<rparr>,
                     ?j\<lparr>assigned_driver := Some (drv_id (init_drivers ! k))\<rparr>,
                     init_drivers[k := (init_drivers ! k)\<lparr>current_load := current_load (init_drivers ! k) + 1\<rparr>]))"
    by blast
  have a: "haversine ?E (14.5547, 121.0244)
        (dlv_lat (deliveries store_both ! 0), dlv_lon (deliveries store_both ! 0)) = Inr 0.1332"
    by (simp add: two_node_env_def store_both_eq)
  have a': "\<bar>0.1332 - 0.1\<bar> \<le> (0.2 :: real)" by simp
  have b: "haversine ?E (14.555, 121.03)
        (dlv_lat (deliveries store_both ! 0), dlv_lon (deliveries store_both ! 0)) = Inr 0.7215"
    by (simp add: two_node_env_def store_both_eq)
  have b': "\<bar>0.7215 - 0.6\<bar> \<le> (0.2 :: real)" by simp
  from assign_driver_min_score[where E="?E" and d="deliveries store_both ! 0" and a="0.1332" and b="0.7215"] a a' b b'
  have c4: "assign_driver ?E (deliveries store_both ! 0)
           [\<lparr>drv_id = 1, imei = ''123456789012345'', driver = ''Alice'',
              drv_lat = 14.5547, drv_lon = 121.0244, current_load = 1\<rparr>,
            \<lparr>drv_id = 2, imei = ''234567890123456'', driver = ''Bob'',
              drv_lat = 14.555, drv_lon = 121.03, current_load = 2\<rparr>]
         = Inr (\<lparr>drv_id = 1, imei = ''123456789012345'', driver = ''Alice'',
              drv_lat = 14.5547, drv_lon = 121.0244, current_load = 2\<rparr>,
                (deliveries store_both ! 0)\<lparr>assigned_driver := Some 1\<rparr>,
                [\<lparr>drv_id = 1, imei = ''123456789012345'', driver = ''Alice'',
              drv_lat = 14.5547, drv_lon = 121.0244, current_load = 2\<rparr>,
                 \<lparr>drv_id = 2, imei = ''234567890123456'', driver = ''Bob'',
              drv_lat = 14.555, drv_lon = 121.03, current_load = 2\<rparr>])"
    by blast
  have h5': "list_all (\<lambda>w. \<exists>km. haversine ?E (drv_lat w, drv_lon w)
         (dlv_lat ?j, dlv_lon ?j) = Inr km) init_drivers"
    using h5 unfolding list_all_iff .
  from h1 h2 h3 h4 h5' c1 c2 dist loads g1 g2 c3 a a' b b' c4 show ?thesis by (intro conjI)
qed

section \<open>Routing and the ETA\<close>

lemma round_half_even_tie:
  "\<bar>of_int (round_half_even y) - y\<bar> = 1 / 2 \<Longrightarrow> even (round_half_even y)"
  unfolding round_half_even_def Let_def
  by (auto simp: abs_if split: if_splits) linarith+

lemma py_round_decimal:
  "py_round x 1 = to_double (of_int (round_half_even (x * 10)) / 10)"
  by (simp add: py_round_def)

lemma round_tenths_close:
  "\<bar>of_int (round_half_even (x * 10)) / 10 - x\<bar> \<le> 1 / 20"
  using round_half_even_close[of "x * 10"] by (simp add: abs_if field_simps split: if_splits)

lemma round_tenths_tie:
  "\<bar>of_int (round_half_even (x * 10)) / 10 - x\<bar> = 1 / 20 \<Longrightarrow> even (round_half_even (x * 10))"
proof -
  assume "\<bar>of_int (round_half_even (x * 10)) / 10 - x\<bar> = 1 / 20"
  then have "\<bar>of_int (round_half_even (x * 10)) - x * 10\<bar> = 1 / 2"
    by (simp add: abs_if field_simps split: if_splits)
  then show ?thesis by (rule round_half_even_tie)
qed

lemma to_double_tenths_nonpos:
  assumes "k \<le> 0" shows "to_double (of_int k / 10) \<le> 0"
proof (cases "k = 0")
  case True
  then show ?thesis by simp
next
  case False
  with assms have k: "k \<le> - 1" by simp
  define x :: real where "x = of_int k / 10"
  have "(of_int k :: real) \<le> of_int (- 1)" using k by (simp only: of_int_le_iff)
  then have x: "x \<le> - (1 / 10)" by (simp add: x_def)
  then have "1 / 2 ^ 20 \<le> \<bar>x\<bar>" by simp
  then have "2 powi (- 1022) \<le> \<bar>x\<bar>" by (rule tiny_le)
  from to_double_rel_error[OF this] have "to_double x - x \<le> \<bar>x\<bar> / 2 ^ 53" by linarith
  moreover have "\<bar>x\<bar> = - x" using x by simp
  ultimately have "to_double x \<le> x * (1 - 1 / 2 ^ 53)" by (simp add: algebra_simps)
  also have "\<dots> \<le> 0" using x by (simp add: mult_le_0_iff)
  finally show ?thesis unfolding x_def .
qed

lemma to_double_tenths_le:
  assumes "1 \<le> k" "k \<le> m" shows "to_double (of_int k / 10) \<le> of_int m / 10 * (1 + 1 / 2 ^ 53)"
proof -
  define x :: real where "x = of_int k / 10"
  have "(of_int 1 :: real) \<le> of_int k" using assms(1) by (simp only: of_int_le_iff)
  then have x: "1 / 10 \<le> x" by (simp add: x_def)
  then have "1 / 2 ^ 20 \<le> x" by simp
  then have "2 powi (- 1022) \<le> x" by (rule tiny_le)
  from to_double_bounds(2)[OF this] have "to_double x \<le> x * (1 + 1 / 2 ^ 53)" .
  moreover have "(of_int k :: real) \<le> of_int m" using assms(2) by (simp only: of_int_le_iff)
  then have "x \<le> of_int m / 10" by (simp add: x_def)
  then have "x * (1 + 1 / 2 ^ 53) \<le> of_int m / 10 * (1 + 1 / 2 ^ 53)"
    by (rule mult_right_mono) simp
  ultimately show ?thesis unfolding x_def by linarith
qed

lemma to_double_tenths_ge:
  assumes "1 \<le> m" "m \<le> k" shows "of_int m / 10 * (1 - 1 / 2 ^ 53) \<le> to_double (of_int k / 10)"
proof -
  define x :: real where "x = of_int k / 10"
  have mk: "(of_int m :: real) \<le> of_int k" using assms(2) by (simp only: of_int_le_iff)
  have "(of_int 1 :: real) \<le> of_int m" using assms(1) by (simp only: of_int_le_iff)
  with mk have x: "1 / 10 \<le> x" by (simp add: x_def)
  then have "1 / 2 ^ 20 \<le> x" by simp
  then have "2 powi (- 1022) \<le> x" by (rule tiny_le)
  from to_double_bounds(1)[OF this] have "x * (1 - 1 / 2 ^ 53) \<le> to_double x" .
  moreover have "of_int m / 10 \<le> x" using mk by (simp add: x_def)
  then have "of_int m / 10 * (1 - 1 / 2 ^ 53) \<le> x * (1 - 1 / 2 ^ 53)"
    by (rule mult_right_mono) simp
  ultimately show ?thesis unfolding x_def by linarith
qed

lemma route_try_ok:
  assumes "nearest_nodes E (snd origin) (fst origin) = Inr a"
    and "nearest_nodes E (snd destination) (fst destination) = Inr b"
    and "shortest_path E a b = Inr nodes"
    and "node_coords E nodes = Inr coords"
    and "route_edge_lengths E nodes = Inr lens"
  shows "route_try E origin destination
           = Inr (coords, py_round (to_double (float_sum E lens / 500)) 1)"
  using assms by (simp add: route_try_def)

lemma to_double_metres:
  "to_double 800 = 800" "to_double 810 = 810" "to_double 1600 = 1600"
  "to_double 175 = 175" "to_double 225 = 225" "to_double 25 = 25" "to_double 75 = 75"
  by (simp_all add: float_eval)

lemma eta_of_metres:
  "py_round (to_double (800 / 500)) 1 = to_double 1.6"
  "py_round (to_double (1600 / 500)) 1 = to_double 3.2"
  "py_round (to_double (810 / 500)) 1 = to_double 1.6"
  "py_round (to_double (175 / 500)) 1 = to_double 0.3"
  "py_round (to_double (225 / 500)) 1 = to_double 0.5"
  "py_round (to_double (25 / 500)) 1 = to_double 0.1"
  "py_round (to_double (75 / 500)) 1 = to_double 0.1"
  by (simp_all add: py_round_def float_eval)

lemma route_two_nodes:
  "suggest_route (two_node_env len) (14.5547, 121.0244) (14.56, 121.02)
     = ([(14.5547, 121.0244), (14.56, 121.02)], py_round (to_double (to_double len / 500)) 1)"
  by (simp add: suggest_route_def route_try_def two_node_env_def power2_eq_square)

lemma route_temp_two_nodes:
  "suggest_route_temp (two_node_env len) (14.5547, 121.0244) (14.56, 121.02)
     = ([(14.5547, 121.0244), (14.56, 121.02)],
        py_round (to_double (to_double (to_double len + len) / 500)) 1)"
  by (simp add: suggest_route_temp_def route_try_temp_def two_node_env_def power2_eq_square
        sum_left_def)

lemma route_scenario_A:
  "suggest_route (two_node_env 800) (14.5547, 121.0244) (14.56, 121.02)
     = ([(14.5547, 121.0244), (14.56, 121.02)], to_double 1.6)"
  unfolding route_two_nodes to_double_metres eta_of_metres ..

lemma route_temp_scenario_A:
  "suggest_route_temp (two_node_env 800) (14.5547, 121.0244) (14.56, 121.02)
     = ([(14.5547, 121.0244), (14.56, 121.02)], to_double 3.2)"
proof -
  have "to_double (to_double (to_double 800 + 800) / 500) = to_double (1600 / 500)"
    unfolding to_double_metres by (simp add: to_double_metres)
  then show ?thesis unfolding route_temp_two_nodes by (simp only: eta_of_metres)
qed

lemma eta_values_differ: "to_double 1.6 < to_double 3.2"
  by (simp add: float_eval)


lemma route_half_way_lengths:
  "suggest_route (two_node_env 175) (14.5547, 121.0244) (14.56, 121.02)
     = ([(14.5547, 121.0244), (14.56, 121.02)], to_double 0.3)"
  "suggest_route (two_node_env 225) (14.5547, 121.0244) (14.56, 121.02)
     = ([(14.5547, 121.0244), (14.56, 121.02)], to_double 0.5)"
  "suggest_route (two_node_env 25) (14.5547, 121.0244) (14.56, 121.02)
     = ([(14.5547, 121.0244), (14.56, 121.02)], to_double 0.1)"
  "suggest_route (two_node_env 75) (14.5547, 121.0244) (14.56, 121.02)
     = ([(14.5547, 121.0244), (14.56, 121.02)], to_double 0.1)"
  "suggest_route (two_node_env 810) (14.5547, 121.0244) (14.56, 121.02)
     = ([(14.5547, 121.0244), (14.56, 121.02)], to_double 1.6)"
  unfolding route_two_nodes to_double_metres eta_of_metres by (rule refl)+

lemma route_backwards:
  "suggest_route (two_node_env 800) (14.56, 121.02) (14.5547, 121.0244) = ([], 0)"
  by (simp add: suggest_route_def route_try_def two_node_env_def power2_eq_square)

lemma path_length_per_node_const:
  "shortest_path_length E a b = Inr l \<Longrightarrow>
     path_length_per_node E a b ns = Inr (replicate (length ns) l)"
  by (induction ns) simp_all

lemma route_try_temp_ok:
  assumes "nearest_nodes E (snd origin) (fst origin) = Inr a"
    and "nearest_nodes E (snd destination) (fst destination) = Inr b"
    and "shortest_path E a b = Inr nodes"
    and "node_coords E nodes = Inr coords"
    and "shortest_path_length E a b = Inr l"
  shows "suggest_route_temp E origin destination
           = (coords, py_round (to_double (float_sum E (replicate (length nodes) l) / 500)) 1)"
  using assms
  by (simp add: suggest_route_temp_def route_try_temp_def path_length_per_node_const)

text \<open>
  C5. On the network of Scenario A (two nodes, one edge of 800 m between them) the route
  function of \<^verbatim>\<open>app.py\<close> returns the two waypoints and an ETA of 1.6 minutes (the float
  \<^verbatim>\<open>1.6\<close>), which is 800 / 500. The copy of the function in \<^verbatim>\<open>tempCodeRunnerFile.py\<close>
  returns the same waypoints and an ETA of 3.2 minutes (the float \<^verbatim>\<open>3.2\<close>, a larger
  number): it adds the length of the whole path once for each of its two nodes.
\<close>

theorem route_scenario_A_both_files:
  "suggest_route (two_node_env 800) (14.5547, 121.0244) (14.56, 121.02)
     = ([(14.5547, 121.0244), (14.56, 121.02)], to_double 1.6)
   \<and> suggest_route_temp (two_node_env 800) (14.5547, 121.0244) (14.56, 121.02)
     = ([(14.5547, 121.0244), (14.56, 121.02)], to_double 3.2)
   \<and> to_double 1.6 < to_double 3.2
   \<and> \<bar>to_double 1.6 - 1.6\<bar> \<le> 1 / 2 ^ 52
   \<and> \<bar>to_double 3.2 - 3.2\<bar> \<le> 1 / 2 ^ 51"
proof -
  have "\<bar>to_double 1.6 - 1.6\<bar> \<le> 1 / 2 ^ 52" by (simp add: float_eval)
  moreover have "\<bar>to_double 3.2 - 3.2\<bar> \<le> 1 / 2 ^ 51" by (simp add: float_eval)
  ultimately show ?thesis
    using route_scenario_A route_temp_scenario_A eta_values_differ by (intro conjI)
qed

text \<open>
  C6. When the nearest-node lookup fails for the origin or for the destination, or no path
  joins the two nodes found, the route function returns the empty waypoint list and ETA 0.
  The function is total: no exception leaves it.
\<close>

theorem unroutable_gives_empty_route:
  assumes "nearest_nodes E (snd origin) (fst origin) = Inl e
         \<or> nearest_nodes E (snd destination) (fst destination) = Inl e
         \<or> (\<exists>a b. nearest_nodes E (snd origin) (fst origin) = Inr a
                \<and> nearest_nodes E (snd destination) (fst destination) = Inr b
                \<and> shortest_path E a b = Inl e)"
  shows "suggest_route E origin destination = ([], 0)"
  using assms
  by (auto simp add: suggest_route_def route_try_def split: sum.splits)

theorem unroutable_gives_empty_route_witness:
  "nearest_nodes (two_node_env 800) (snd (14.56 :: real, 121.02 :: real)) (fst (14.56 :: real, 121.02 :: real)) = Inr 2
   \<and> nearest_nodes (two_node_env 800) (snd (14.5547 :: real, 121.0244 :: real)) (fst (14.5547 :: real, 121.0244 :: real)) = Inr 1
   \<and> shortest_path (two_node_env 800) 2 1 = Inl (LibraryError ''NetworkXNoPath'')
   \<and> suggest_route (two_node_env 800) (14.56, 121.02) (14.5547, 121.0244) = ([], 0)"
proof -
  let ?E = "two_node_env 800"
  have a: "nearest_nodes ?E (snd (14.56 :: real, 121.02 :: real)) (fst (14.56 :: real, 121.02 :: real)) = Inr 2"
    by (simp add: two_node_env_def power2_eq_square)
  have b: "nearest_nodes ?E (snd (14.5547 :: real, 121.0244 :: real)) (fst (14.5547 :: real, 121.0244 :: real)) = Inr 1"
    by (simp add: two_node_env_def power2_eq_square)
  have c: "shortest_path ?E 2 1 = Inl (LibraryError ''NetworkXNoPath'')"
    by (simp add: two_node_env_def)
  from a b c have "nearest_nodes ?E (snd (14.56 :: real, 121.02 :: real)) (fst (14.56 :: real, 121.02 :: real))
           = Inl (LibraryError ''NetworkXNoPath'')
         \<or> nearest_nodes ?E (snd (14.5547 :: real, 121.0244 :: real)) (fst (14.5547 :: real, 121.0244 :: real))
           = Inl (LibraryError ''NetworkXNoPath'')
         \<or> (\<exists>a b. nearest_nodes ?E (snd (14.56 :: real, 121.02 :: real)) (fst (14.56 :: real, 121.02 :: real)) = Inr a
                \<and> nearest_nodes ?E (snd (14.5547 :: real, 121.0244 :: real)) (fst (14.5547 :: real, 121.0244 :: real)) = Inr b
                \<and> shortest_path ?E a b = Inl (LibraryError ''NetworkXNoPath''))"
    by blast
  from unroutable_gives_empty_route[OF this] a b c show ?thesis by (intro conjI)
qed

text \<open>
  C10. On success the route function returns, with the waypoints, a rounding to one decimal
  of the quotient that the code computes: the float \<open>q\<close> nearest to the summed edge
  lengths divided by 500. The ETA is the float nearest to \<open>k / 10\<close>, where \<open>k\<close> is the
  integer nearest to \<open>10 q\<close> (the even one when \<open>10 q\<close> lies half-way between two integers),
  so \<open>k / 10\<close> is at most 0.05 away from \<open>q\<close>. The ETA differs from \<open>q\<close> whenever \<open>q\<close> is not
  itself the float of a one-decimal number.
\<close>

theorem eta_rounded_to_one_decimal:
  assumes "nearest_nodes E (snd origin) (fst origin) = Inr a"
    and "nearest_nodes E (snd destination) (fst destination) = Inr b"
    and "shortest_path E a b = Inr nodes"
    and "node_coords E nodes = Inr coords"
    and "route_edge_lengths E nodes = Inr lens"
  shows "suggest_route E origin destination
           = (coords, py_round (to_double (float_sum E lens / 500)) 1)
       \<and> (\<exists>k::int. snd (suggest_route E origin destination) = to_double (of_int k / 10)
             \<and> \<bar>of_int k / 10 - to_double (float_sum E lens / 500)\<bar> \<le> 1 / 20
             \<and> (\<bar>of_int k / 10 - to_double (float_sum E lens / 500)\<bar> = 1 / 20 \<longrightarrow> even k))
       \<and> ((\<forall>k::int. to_double (float_sum E lens / 500) \<noteq> to_double (of_int k / 10))
            \<longrightarrow> snd (suggest_route E origin destination)
                  \<noteq> to_double (float_sum E lens / 500))"
proof -
  define q where "q = to_double (float_sum E lens / 500)"
  define k where "k = round_half_even (q * 10)"
  have r: "suggest_route E origin destination = (coords, py_round q 1)"
    unfolding q_def by (simp add: suggest_route_def route_try_ok[OF assms])
  have e: "py_round q 1 = to_double (of_int k / 10)"
    unfolding k_def by (rule py_round_decimal)
  have c: "\<bar>of_int k / 10 - q\<bar> \<le> 1 / 20" unfolding k_def by (rule round_tenths_close)
  have t: "\<bar>of_int k / 10 - q\<bar> = 1 / 20 \<longrightarrow> even k"
    unfolding k_def using round_tenths_tie[of q] by blast
  have n: "(\<forall>k::int. q \<noteq> to_double (of_int k / 10)) \<longrightarrow> py_round q 1 \<noteq> q"
    using e by metis
  from e c t have "\<exists>k::int. py_round q 1 = to_double (of_int k / 10)
      \<and> \<bar>of_int k / 10 - q\<bar> \<le> 1 / 20 \<and> (\<bar>of_int k / 10 - q\<bar> = 1 / 20 \<longrightarrow> even k)"
    by blast
  with r n show ?thesis unfolding q_def[symmetric] by (simp only: snd_conv simp_thms)
qed

theorem eta_rounded_to_one_decimal_witness:
  "nearest_nodes (two_node_env 175) (snd (14.5547 :: real, 121.0244 :: real)) (fst (14.5547 :: real, 121.0244 :: real)) = Inr 1
   \<and> nearest_nodes (two_node_env 175) (snd (14.56 :: real, 121.02 :: real)) (fst (14.56 :: real, 121.02 :: real)) = Inr 2
   \<and> shortest_path (two_node_env 175) 1 2 = Inr [1, 2]
   \<and> node_coords (two_node_env 175) [1, 2] = Inr [(14.5547, 121.0244), (14.56, 121.02)]
   \<and> route_edge_lengths (two_node_env 175) [1, 2] = Inr [175]
   \<and> float_sum (two_node_env 175) [175] = 175
   \<and> suggest_route (two_node_env 175) (14.5547, 121.0244) (14.56, 121.02)
       = ([(14.5547, 121.0244), (14.56, 121.02)], to_double 0.3)
   \<and> to_double 0.3 < to_double (175 / 500)
   \<and> to_double (175 / 500) < 0.35
   \<and> snd (suggest_route (two_node_env 175) (14.5547, 121.0244) (14.56, 121.02))
       \<noteq> to_double (float_sum (two_node_env 175) [175] / 500)"
proof -
  let ?E = "two_node_env 175"
  have h1: "nearest_nodes ?E (snd (14.5547 :: real, 121.0244 :: real)) (fst (14.5547 :: real, 121.0244 :: real)) = Inr 1"
    by (simp add: two_node_env_def power2_eq_square)
  have h2: "nearest_nodes ?E (snd (14.56 :: real, 121.02 :: real)) (fst (14.56 :: real, 121.02 :: real)) = Inr 2"
    by (simp add: two_node_env_def power2_eq_square)
  have h3: "shortest_path ?E 1 2 = Inr [1, 2]" by (simp add: two_node_env_def)
  have h4: "node_coords ?E [1, 2] = Inr [(14.5547, 121.0244), (14.56, 121.02)]"
    by (simp add: two_node_env_def)
  have h5: "route_edge_lengths ?E [1, 2] = Inr [175]" by (simp add: two_node_env_def)
  have s: "float_sum ?E [175] = 175" by (simp add: two_node_env_def to_double_metres)
  have lt: "to_double 0.3 < to_double (175 / 500)" by (simp add: float_eval)
  have lt': "to_double (175 / 500) < 0.35" by (simp add: float_eval)
  have lo: "3 / 10 * (1 + 1 / 2 ^ 53) < to_double (175 / 500)" by (simp add: float_eval)
  have hi: "to_double (175 / 500) < 4 / 10 * (1 - 1 / 2 ^ 53)" by (simp add: float_eval)
  have nk: "\<forall>k::int. to_double (float_sum ?E [175] / 500) \<noteq> to_double (of_int k / 10)"
  proof
    fix k :: int
    consider "k \<le> 0" | "1 \<le> k" "k \<le> 3" | "4 \<le> k" by linarith
    then show "to_double (float_sum ?E [175] / 500) \<noteq> to_double (of_int k / 10)"
    proof cases
      case 1
      from to_double_tenths_nonpos[OF this] lo show ?thesis unfolding s by simp
    next
      case 2
      from to_double_tenths_le[OF this] lo show ?thesis unfolding s by simp
    next
      case 3
      from to_double_tenths_ge[of 4 k] 3 hi show ?thesis unfolding s by simp
    qed
  qed
  from eta_rounded_to_one_decimal[OF h1 h2 h3 h4 h5] nk
  have ne: "snd (suggest_route ?E (14.5547, 121.0244) (14.56, 121.02))
              \<noteq> to_double (float_sum ?E [175] / 500)"
    by blast
  from h1 h2 h3 h4 h5 s route_half_way_lengths(1) lt lt' ne show ?thesis by (intro conjI)
qed

section \<open>Boundary points of a geofence\<close>

lemma check_geofence_in_match:
  "check_geofence_in gfs lat lon = Inr (Some nm) \<Longrightarrow>
     \<exists>gf\<in>set gfs. gf_name gf = nm \<and> contains (polygon gf) (lat, lon)"
proof (induction gfs)
  case Nil
  then show ?case by simp
next
  case (Cons gf gfs)
  then show ?case
    by (auto simp add: Polygon_def split: sum.splits if_splits)
qed

lemma check_geofence_in_all_boundary:
  "\<forall>gf\<in>set gfs. on_boundary (polygon gf) (lat, lon) \<Longrightarrow>
     check_geofence_in gfs lat lon \<noteq> Inr (Some nm)"
proof
  assume b: "\<forall>gf\<in>set gfs. on_boundary (polygon gf) (lat, lon)"
    and m: "check_geofence_in gfs lat lon = Inr (Some nm)"
  from check_geofence_in_match[OF m] obtain gf where "gf \<in> set gfs" "contains (polygon gf) (lat, lon)"
    by blast
  with b show False by (simp add: contains_def)
qed

text \<open>
  C8. A geofence that the check reports contains the point in the strict sense: the point
  is not on the boundary of its polygon. A point on the boundary of every polygon is
  reported for none. For the seeded geofence the check succeeds exactly on the open
  rectangle 14.555 < lat < 14.556, 121.023 < lon < 121.025, so every point of the
  rectangle's boundary is classified as outside.
\<close>

theorem boundary_points_are_outside:
  "(check_geofence_in gfs lat lon = Inr (Some nm) \<longrightarrow>
      (\<exists>gf\<in>set gfs. gf_name gf = nm \<and> contains (polygon gf) (lat, lon)
         \<and> \<not> on_boundary (polygon gf) (lat, lon)))
   \<and> ((\<forall>gf\<in>set gfs. on_boundary (polygon gf) (lat, lon)) \<longrightarrow>
         check_geofence_in gfs lat lon \<noteq> Inr (Some nm))
   \<and> check_geofence lat lon =
       Inr (if 14.555 < lat \<and> lat < 14.556 \<and> 121.023 < lon \<and> lon < 121.025
            then Some ''No-Go Zone Makati'' else None)
   \<and> (on_boundary (polygon (geofences ! 0)) (lat, lon) \<longrightarrow> check_geofence lat lon = Inr None)"
proof (intro conjI impI)
  assume "check_geofence_in gfs lat lon = Inr (Some nm)"
  from check_geofence_in_match[OF this]
  show "\<exists>gf\<in>set gfs. gf_name gf = nm \<and> contains (polygon gf) (lat, lon)
         \<and> \<not> on_boundary (polygon gf) (lat, lon)"
    by (auto simp add: contains_def)
next
  assume "\<forall>gf\<in>set gfs. on_boundary (polygon gf) (lat, lon)"
  then show "check_geofence_in gfs lat lon \<noteq> Inr (Some nm)"
    by (rule check_geofence_in_all_boundary)
next
  show "check_geofence lat lon =
       Inr (if 14.555 < lat \<and> lat < 14.556 \<and> 121.023 < lon \<and> lon < 121.025
            then Some ''No-Go Zone Makati'' else None)"
    by (rule check_geofence_char)
next
  assume "on_boundary (polygon (geofences ! 0)) (lat, lon)"
  then have "\<forall>gf\<in>set geofences. on_boundary (polygon gf) (lat, lon)"
    by (simp add: geofences_def)
  from check_geofence_in_all_boundary[OF this]
  have "check_geofence lat lon \<noteq> Inr (Some ''No-Go Zone Makati'')"
    by (simp add: check_geofence_def)
  then show "check_geofence lat lon = Inr None"
    unfolding check_geofence_char by (simp split: if_splits)
qed

lemma on_west_edge:
  "on_boundary [(14.555, 121.023), (14.556, 121.023), (14.556, 121.025), (14.555, 121.025)]
     (14.555, 121.024)"
  unfolding on_boundary_def nogo_edges
  by (simp only: list_ex_Nil_iff list_ex_Cons_iff split_conv seg_south seg_east seg_north seg_west)
     simp

theorem boundary_points_are_outside_witness:
  "check_geofence_in geofences 14.5555 121.024 = Inr (Some ''No-Go Zone Makati'')
   \<and> (\<exists>gf\<in>set geofences. gf_name gf = ''No-Go Zone Makati''
         \<and> contains (polygon gf) (14.5555, 121.024)
         \<and> \<not> on_boundary (polygon gf) (14.5555, 121.024))
   \<and> on_boundary (polygon (geofences ! 0)) (14.555, 121.024)
   \<and> list_all (\<lambda>gf. on_boundary (polygon gf) (14.555, 121.024)) geofences
   \<and> check_geofence_in geofences 14.555 121.024 = Inr None
   \<and> check_geofence 14.555 121.024 = Inr None"
proof -
  have inside: "check_geofence_in geofences 14.5555 121.024 = Inr (Some ''No-Go Zone Makati'')"
    using check_geofence_char[of "14.5555" "121.024"] by (simp add: check_geofence_def)
  from boundary_points_are_outside[of geofences "14.5555" "121.024" "''No-Go Zone Makati''"] inside
  have c1: "\<exists>gf\<in>set geofences. gf_name gf = ''No-Go Zone Makati''
         \<and> contains (polygon gf) (14.5555, 121.024)
         \<and> \<not> on_boundary (polygon gf) (14.5555, 121.024)"
    by blast
  have b: "on_boundary (polygon (geofences ! 0)) (14.555, 121.024)"
    using on_west_edge by (simp add: geofences_def)
  then have ball: "list_all (\<lambda>gf. on_boundary (polygon gf) (14.555, 121.024)) geofences"
    by (simp add: geofences_def)
  from boundary_points_are_outside[of geofences "14.555" "121.024" "''No-Go Zone Makati''"] b
  have c2: "check_geofence 14.555 121.024 = Inr None" by blast
  then have c3: "check_geofence_in geofences 14.555 121.024 = Inr None"
    by (simp add: check_geofence_def)
  from inside c1 b ball c3 c2 show ?thesis by (intro conjI)
qed

section \<open>More clusters than jobs\<close>

lemma cluster_two_of_two:
  "\<exists>m. cluster_deliveries (two_node_env 800) (deliveries store_both) 2 = Inr m
       \<and> m 0 = Some (deliveries store_both) \<and> m 1 = Some [] \<and> m 2 = None"
  by (simp add: store_both_eq cluster_deliveries_def KMeans_fit_def two_node_env_def)

text \<open>
  C7 as stated fails: with two jobs and three clusters the fit raises and no cluster
  mapping is returned.
\<close>

theorem cluster_three_of_two_counterexample:
  "length (deliveries store_both) = 2
   \<and> cluster_deliveries (two_node_env 800) (deliveries store_both) 3
       = Inl (ValueError ''n_samples should be >= n_clusters'')"
  by (simp add: store_both_eq cluster_deliveries_def KMeans_fit_def)

text \<open>
  C7 (amended). With at least two jobs and more clusters asked for than there are jobs,
  clustering fails with the \<^verbatim>\<open>ValueError\<close> of the k-means fit; it returns no clusters.
\<close>

theorem cluster_more_clusters_than_jobs:
  assumes "2 \<le> length dels" and "length dels < k"
  shows "cluster_deliveries E dels k = Inl (ValueError ''n_samples should be >= n_clusters'')"
  using assms by (simp add: cluster_deliveries_def KMeans_fit_def)

theorem cluster_more_clusters_than_jobs_witness:
  "2 \<le> length (deliveries store_both) \<and> length (deliveries store_both) < 5
   \<and> cluster_deliveries (two_node_env 800) (deliveries store_both) 5
       = Inl (ValueError ''n_samples should be >= n_clusters'')"
proof -
  have a: "2 \<le> length (deliveries store_both)" by (simp add: store_both_eq)
  have b: "length (deliveries store_both) < 5" by (simp add: store_both_eq)
  from cluster_more_clusters_than_jobs[OF a b, of "two_node_env 800"] a b
  show ?thesis by (intro conjI)
qed

end
